theory Spec2Isabelle
  imports Complex_Main "HOL-Library.Product_Lexorder"
begin

section \<open>The repair simulation of app.py\<close>

text \<open>
  The program drives four generator processes (\<open>vehicle_generator\<close>, \<open>metrics_observer\<close>,
  \<open>vehicle\<close>, \<open>repair_process\<close>) on a simpy \<open>Environment\<close> with one \<open>Container\<close>.
  The embedding keeps the objects of the run in one state record and follows the
  library's event loop: every event is scheduled as \<open>(time, priority, eid, event)\<close> and
  \<open>Environment.step\<close> pops the least entry and runs the callbacks of its event.

  Simulated time is a rational here (the source computes with floats; only sums and
  comparisons of times are used). The global generator of module \<open>random\<close> is the
  sequence \<open>unit_draws\<close> of the values \<open>-log(1 - random())\<close> that successive calls of
  \<open>random.expovariate\<close> compute before dividing by the rate, together with the position
  \<open>rng\<close> of the next value.
\<close>

subsection \<open>Data\<close>

datatype exn = ValueError | ZeroDivisionError | RuntimeError | StopSimulation | EmptySchedule

datatype proc = VehicleGenerator | MetricsObserver | Vehicle | RepairProcess

text \<open>
  The events the program ever schedules: the \<open>Initialize\<close> of a new process, the
  \<open>Timeout\<close> a process waits for, a granted \<open>ContainerGet\<close> or \<open>ContainerPut\<close>, the
  \<open>Process\<close> event of a generator that has ended (with the exception that ended it, if
  any), and the event \<open>Environment.run\<close> schedules for its \<open>until\<close>.
\<close>

datatype event =
    Initialize proc
  | Timeout proc
  | ContainerGet
  | ContainerPut
  | Process proc "exn option"
  | Until

type_synonym entry = "rat \<times> nat \<times> nat \<times> event"

record snapshot =
  time :: rat
  available_supply :: int
  backlog :: int
  snap_in_repair :: int
  snap_total_arrivals :: int
  snap_served :: int
  satisfaction_rate :: rat

record final_metrics =
  demand_satisfaction_rate :: rat
  fm_total_arrivals :: int
  fm_served :: int
  fm_backlog :: int
  fm_available_supply :: int
  fm_in_repair :: int

text \<open>
  \<open>now\<close>, \<open>queue\<close>, \<open>eid\<close>: the environment; \<open>level\<close>, \<open>capacity\<close>, \<open>get_queue\<close>,
  \<open>put_queue\<close>: the container (a pending request is kept as its amount);
  \<open>total_arrivals\<close>, \<open>served\<close>, \<open>in_repair\<close>: the dict \<open>counters\<close>; \<open>timeseries\<close>:
  the list of snapshots; \<open>rng\<close>: how many values the random generator has handed out.
\<close>

record state =
  now :: rat
  queue :: "entry list"
  eid :: nat
  level :: int
  capacity :: int
  get_queue :: "int list"
  put_queue :: "int list"
  total_arrivals :: int
  served :: int
  in_repair :: int
  timeseries :: "snapshot list"
  rng :: nat

record config =
  demand_rate :: rat
  repair_cycle_time :: rat
  record_interval :: rat
  unit_draws :: "nat \<Rightarrow> rat"

subsection \<open>The environment\<close>

definition URGENT :: nat where
  "URGENT = 0"

definition NORMAL :: nat where
  "NORMAL = 1"

fun key :: "entry \<Rightarrow> rat \<times> nat \<times> nat" where
  "key (t, p, i, ev) = (t, p, i)"

text \<open>
  \<open>Environment.schedule\<close> pushes \<open>(now + delay, priority, next(eid), event)\<close> on a heap;
  the queue is kept here as the list of the entries in the order the heap pops them.
\<close>

definition schedule :: "event \<Rightarrow> nat \<Rightarrow> rat \<Rightarrow> state \<Rightarrow> state" where
  "schedule ev priority delay s =
     s\<lparr>queue := insort_key key (now s + delay, priority, eid s, ev) (queue s),
       eid := eid s + 1\<rparr>"

text \<open>
  What a generator does when it is resumed: it stops at its next \<open>yield\<close>, returns, or
  raises. \<open>Process._resume\<close> then waits for the yielded event, or schedules the
  process's own event, succeeded or failed.
\<close>

datatype signal = Yielded | Returned | Raised exn

fun resume :: "proc \<Rightarrow> signal \<times> state \<Rightarrow> state" where
  "resume p (Yielded, s) = s"
| "resume p (Returned, s) = schedule (Process p None) NORMAL 0 s"
| "resume p (Raised e, s) = schedule (Process p (Some e)) NORMAL 0 s"

definition timeout :: "proc \<Rightarrow> rat \<Rightarrow> state \<Rightarrow> signal \<times> state" where
  "timeout p delay s =
     (if delay < 0 then (Raised ValueError, s)
      else (Yielded, schedule (Timeout p) NORMAL delay s))"

definition env_process :: "proc \<Rightarrow> state \<Rightarrow> state" where
  "env_process p s = schedule (Initialize p) URGENT 0 s"

subsection \<open>The container\<close>

text \<open>
  \<open>_trigger_get\<close> serves the get queue from its head: a request the level covers is
  taken out, the level lowered and the request's event scheduled; the first request
  that cannot be served stops the loop. \<open>_trigger_put\<close> does the same for the puts,
  against the free room \<open>capacity - level\<close>.
\<close>

function trigger_get :: "state \<Rightarrow> state" where
  "trigger_get s =
     (case get_queue s of
        [] \<Rightarrow> s
      | amount # rest \<Rightarrow>
          if level s \<ge> amount
          then trigger_get
                 (schedule ContainerGet NORMAL 0 (s\<lparr>level := level s - amount, get_queue := rest\<rparr>))
          else s)"
  by pat_completeness auto
termination
  by (relation "measure (\<lambda>s. length (get_queue s))") (auto simp: schedule_def)

function trigger_put :: "state \<Rightarrow> state" where
  "trigger_put s =
     (case put_queue s of
        [] \<Rightarrow> s
      | amount # rest \<Rightarrow>
          if capacity s - level s \<ge> amount
          then trigger_put
                 (schedule ContainerPut NORMAL 0 (s\<lparr>level := level s + amount, put_queue := rest\<rparr>))
          else s)"
  by pat_completeness auto
termination
  by (relation "measure (\<lambda>s. length (put_queue s))") (auto simp: schedule_def)

definition container_get :: "int \<Rightarrow> state \<Rightarrow> state" where
  "container_get amount s = trigger_get (s\<lparr>get_queue := get_queue s @ [amount]\<rparr>)"

definition container_put :: "int \<Rightarrow> state \<Rightarrow> state" where
  "container_put amount s = trigger_put (s\<lparr>put_queue := put_queue s @ [amount]\<rparr>)"

text \<open>\<open>simpy.Container(env, init=..., capacity=...)\<close> with its three checks.\<close>

definition container_init :: "int \<Rightarrow> int \<Rightarrow> state \<Rightarrow> exn + state" where
  "container_init init cap s =
     (if cap \<le> 0 then Inl ValueError
      else if init < 0 then Inl ValueError
      else if init > cap then Inl ValueError
      else Inr (s\<lparr>level := init, capacity := cap, get_queue := [], put_queue := []\<rparr>))"

subsection \<open>The four processes\<close>

text \<open>
  \<open>random.expovariate(lambd)\<close> takes the next value of the generator and divides it by
  \<open>lambd\<close>; the division raises for \<open>lambd = 0\<close>.
\<close>

definition expovariate :: "config \<Rightarrow> rat \<Rightarrow> state \<Rightarrow> (exn + rat) \<times> state" where
  "expovariate cfg lambd s =
     (let u = unit_draws cfg (rng s); s' = s\<lparr>rng := rng s + 1\<rparr>
      in if lambd = 0 then (Inl ZeroDivisionError, s') else (Inr (u / lambd), s'))"

text \<open>One turn of the loop of \<open>vehicle_generator\<close>, up to its \<open>yield\<close>.\<close>

definition vehicle_generator :: "config \<Rightarrow> state \<Rightarrow> signal \<times> state" where
  "vehicle_generator cfg s =
     (case expovariate cfg (demand_rate cfg) s of
        (Inl e, s') \<Rightarrow> (Raised e, s')
      | (Inr d, s') \<Rightarrow> timeout VehicleGenerator d s')"

definition take_snapshot :: "state \<Rightarrow> snapshot" where
  "take_snapshot s =
     \<lparr>time = now s,
      available_supply = level s,
      backlog = int (length (get_queue s)),
      snap_in_repair = in_repair s,
      snap_total_arrivals = total_arrivals s,
      snap_served = served s,
      satisfaction_rate =
        (if total_arrivals s > 0 then of_int (served s) / of_int (total_arrivals s) else 0)\<rparr>"

text \<open>One turn of the loop of \<open>metrics_observer\<close>, up to its \<open>yield\<close>.\<close>

definition metrics_observer :: "config \<Rightarrow> state \<Rightarrow> signal \<times> state" where
  "metrics_observer cfg s =
     timeout MetricsObserver (record_interval cfg)
       (s\<lparr>timeseries := timeseries s @ [take_snapshot s]\<rparr>)"

text \<open>\<open>vehicle\<close> up to \<open>yield container.get(1)\<close>, and from there to its end.\<close>

definition vehicle_arrive :: "state \<Rightarrow> signal \<times> state" where
  "vehicle_arrive s = (Yielded, container_get 1 (s\<lparr>total_arrivals := total_arrivals s + 1\<rparr>))"

definition vehicle_served :: "state \<Rightarrow> signal \<times> state" where
  "vehicle_served s = (Returned, env_process RepairProcess (s\<lparr>served := served s + 1\<rparr>))"

text \<open>
  \<open>repair_process\<close> up to \<open>yield env.timeout(repair_cycle_time)\<close>, from there to
  \<open>yield container.put(1)\<close>, and from there to its end.
\<close>

definition repair_begin :: "config \<Rightarrow> state \<Rightarrow> signal \<times> state" where
  "repair_begin cfg s =
     timeout RepairProcess (repair_cycle_time cfg) (s\<lparr>in_repair := in_repair s + 1\<rparr>)"

definition repair_return :: "state \<Rightarrow> signal \<times> state" where
  "repair_return s = (Yielded, container_put 1 s)"

definition repair_end :: "state \<Rightarrow> signal \<times> state" where
  "repair_end s = (Returned, s\<lparr>in_repair := in_repair s - 1\<rparr>)"

subsection \<open>The event loop\<close>

text \<open>
  The callbacks of an event, in their order. A process waits for one event at a time,
  so the event says where its generator goes on: \<open>Initialize\<close> starts it, a granted get
  resumes a vehicle (after the container's \<open>_trigger_put\<close>), a granted put resumes a
  repair (after \<open>_trigger_get\<close>). The vehicle generator starts a vehicle when its timeout
  fires and goes round its loop. A \<open>Process\<close> event and \<open>Until\<close> resume nothing.
\<close>

fun callbacks :: "config \<Rightarrow> event \<Rightarrow> state \<Rightarrow> state" where
  "callbacks cfg (Initialize VehicleGenerator) s =
     resume VehicleGenerator (vehicle_generator cfg s)"
| "callbacks cfg (Timeout VehicleGenerator) s =
     resume VehicleGenerator (vehicle_generator cfg (env_process Vehicle s))"
| "callbacks cfg (Initialize MetricsObserver) s =
     resume MetricsObserver (metrics_observer cfg s)"
| "callbacks cfg (Timeout MetricsObserver) s =
     resume MetricsObserver (metrics_observer cfg s)"
| "callbacks cfg (Initialize Vehicle) s = resume Vehicle (vehicle_arrive s)"
| "callbacks cfg ContainerGet s = resume Vehicle (vehicle_served (trigger_put s))"
| "callbacks cfg (Initialize RepairProcess) s = resume RepairProcess (repair_begin cfg s)"
| "callbacks cfg (Timeout RepairProcess) s = resume RepairProcess (repair_return s)"
| "callbacks cfg ContainerPut s = resume RepairProcess (repair_end (trigger_get s))"
| "callbacks cfg (Timeout Vehicle) s = s"
| "callbacks cfg (Process p r) s = s"
| "callbacks cfg Until s = s"

text \<open>
  \<open>Environment.step\<close>: pop the least entry, set the clock, run the callbacks; then the
  \<open>until\<close> event stops the simulation and a failed process event raises its exception.
\<close>

definition step :: "config \<Rightarrow> state \<Rightarrow> exn option \<times> state" where
  "step cfg s =
     (case queue s of
        [] \<Rightarrow> (Some EmptySchedule, s)
      | (t, p, i, ev) # q \<Rightarrow>
          (let s' = callbacks cfg ev (s\<lparr>now := t, queue := q\<rparr>)
           in case ev of
                Until \<Rightarrow> (Some StopSimulation, s')
              | Process pr (Some e) \<Rightarrow> (Some e, s')
              | _ \<Rightarrow> (None, s')))"

text \<open>
  The loop \<open>while True: self.step()\<close> of \<open>Environment.run\<close>, with fuel: \<open>None\<close> when the
  fuel runs out before a step raises.
\<close>

fun run_loop :: "config \<Rightarrow> nat \<Rightarrow> state \<Rightarrow> (exn \<times> state) option" where
  "run_loop cfg 0 s = None"
| "run_loop cfg (Suc n) s =
     (case step cfg s of
        (None, s') \<Rightarrow> run_loop cfg n s'
      | (Some e, s') \<Rightarrow> Some (e, s'))"

text \<open>
  \<open>Environment.run(until)\<close> for a number: it must lie after \<open>now\<close>; its event is
  scheduled as urgent; \<open>StopSimulation\<close> ends the run normally.
\<close>

definition env_run :: "config \<Rightarrow> nat \<Rightarrow> rat \<Rightarrow> state \<Rightarrow> (exn option \<times> state) option" where
  "env_run cfg fuel until s =
     (if until \<le> now s then Some (Some ValueError, s)
      else case run_loop cfg fuel (schedule Until URGENT (until - now s) s) of
             None \<Rightarrow> None
           | Some (StopSimulation, s') \<Rightarrow> Some (None, s')
           | Some (EmptySchedule, s') \<Rightarrow> Some (Some RuntimeError, s')
           | Some (e, s') \<Rightarrow> Some (Some e, s'))"

subsection \<open>run_simulation\<close>

definition environment :: "state" where
  "environment =
     \<lparr>now = 0, queue = [], eid = 0, level = 0, capacity = 0, get_queue = [], put_queue = [],
      total_arrivals = 0, served = 0, in_repair = 0, timeseries = [], rng = 0\<rparr>"

definition compute_final_metrics :: "state \<Rightarrow> final_metrics" where
  "compute_final_metrics s =
     \<lparr>demand_satisfaction_rate =
        (if total_arrivals s > 0 then of_int (served s) / of_int (total_arrivals s) else 0),
      fm_total_arrivals = total_arrivals s,
      fm_served = served s,
      fm_backlog = int (length (get_queue s)),
      fm_available_supply = level s,
      fm_in_repair = in_repair s\<rparr>"

text \<open>The state in which \<open>run_simulation\<close> calls \<open>env.run\<close>, when the container is accepted.\<close>

definition start_state :: "int \<Rightarrow> exn + state" where
  "start_state initial_supply =
     (case container_init initial_supply initial_supply environment of
        Inl e \<Rightarrow> Inl e
      | Inr s \<Rightarrow> Inr (env_process MetricsObserver (env_process VehicleGenerator s)))"

text \<open>The arguments of a call that the processes read, with the default of \<open>record_interval\<close>.\<close>

definition make_config :: "(nat \<Rightarrow> rat) \<Rightarrow> rat \<Rightarrow> rat \<Rightarrow> rat option \<Rightarrow> config" where
  "make_config draws rate cycle interval =
     \<lparr>demand_rate = rate, repair_cycle_time = cycle,
      record_interval = (case interval of None \<Rightarrow> 1 | Some r \<Rightarrow> r),
      unit_draws = draws\<rparr>"

text \<open>
  \<open>run_simulation\<close>; \<open>draws\<close> is the state of the random generator at the call and
  \<open>fuel\<close> bounds the steps of the event loop. \<open>record_interval\<close> is optional and 1.0 by
  default. The result is \<open>None\<close> when the fuel does not suffice, \<open>Inl\<close> the exception
  that leaves the function, or \<open>Inr (final_metrics, timeseries)\<close>.
\<close>

definition run_simulation ::
  "(nat \<Rightarrow> rat) \<Rightarrow> nat \<Rightarrow> int \<Rightarrow> rat \<Rightarrow> rat \<Rightarrow> rat \<Rightarrow> rat option
     \<Rightarrow> (exn + final_metrics \<times> snapshot list) option" where
  "run_simulation draws fuel initial_supply rate cycle sim_time interval =
     (case start_state initial_supply of
        Inl e \<Rightarrow> Some (Inl e)
      | Inr s \<Rightarrow>
          (case env_run (make_config draws rate cycle interval) fuel sim_time s of
             None \<Rightarrow> None
           | Some (Some e, s') \<Rightarrow> Some (Inl e)
           | Some (None, s') \<Rightarrow> Some (Inr (compute_final_metrics s', timeseries s'))))"

section \<open>Notions for the properties\<close>

subsection \<open>States of a run\<close>

text \<open>
  \<open>steps cfg n s\<close> is the state after \<open>n\<close> steps of the event loop from \<open>s\<close>, none of
  which raises. \<open>run_state\<close> starts from the state in which \<open>Environment.run\<close> enters its
  loop within \<open>run_simulation\<close>: the two processes started and the \<open>until\<close> event
  scheduled.
\<close>

fun steps :: "config \<Rightarrow> nat \<Rightarrow> state \<Rightarrow> state option" where
  "steps cfg 0 s = Some s"
| "steps cfg (Suc n) s =
     (case step cfg s of (None, s') \<Rightarrow> steps cfg n s' | (Some e, s') \<Rightarrow> None)"

definition run_state :: "config \<Rightarrow> int \<Rightarrow> rat \<Rightarrow> nat \<Rightarrow> state option" where
  "run_state cfg initial_supply sim_time n =
     (case start_state initial_supply of
        Inl e \<Rightarrow> None
      | Inr s \<Rightarrow>
          if sim_time \<le> now s then None
          else steps cfg n (schedule Until URGENT (sim_time - now s) s))"

subsection \<open>Events in the queue\<close>

fun time_of :: "entry \<Rightarrow> rat" where
  "time_of (t, p, i, ev) = t"

fun ev_of :: "entry \<Rightarrow> event" where
  "ev_of (t, p, i, ev) = ev"

text \<open>How many entries of the queue carry the event \<open>ev\<close>.\<close>

definition pending :: "event \<Rightarrow> state \<Rightarrow> int" where
  "pending ev s = int (length (filter (\<lambda>x. ev_of x = ev) (queue s)))"

text \<open>
  The units of the pool that are on their way into repair: taken from the level by a
  granted get, and not yet counted in \<open>in_repair\<close> because the vehicle or the repair
  process it starts has not run yet.
\<close>

definition entering_repair :: "state \<Rightarrow> int" where
  "entering_repair s = pending ContainerGet s + pending (Initialize RepairProcess) s"

text \<open>
  The units on their way back: added to the level by a granted put, and still counted in
  \<open>in_repair\<close> because the repair process has not resumed yet.
\<close>

definition leaving_repair :: "state \<Rightarrow> int" where
  "leaving_repair s = pending ContainerPut s"

text \<open>
  The books of a state. \<open>units\<close>: every unit is in the level, granted to a vehicle, or
  with a repair process that waits for its start or for its timeout (or has failed at
  the timeout). \<open>repairing\<close>: the repair processes between their two updates of
  \<open>in_repair\<close>. \<open>demand\<close>: every vehicle that has arrived is served, waits in the get
  queue, or holds a granted get it has not yet seen.
\<close>

definition units :: "state \<Rightarrow> int" where
  "units s = level s + pending ContainerGet s + pending (Initialize RepairProcess) s
     + pending (Timeout RepairProcess) s + pending (Process RepairProcess (Some ValueError)) s"

definition repairing :: "state \<Rightarrow> int" where
  "repairing s = pending (Timeout RepairProcess) s + pending ContainerPut s
     + pending (Process RepairProcess (Some ValueError)) s"

definition demand :: "state \<Rightarrow> int" where
  "demand s = served s + int (length (get_queue s)) + pending ContainerGet s"

definition accounting :: "state \<Rightarrow> bool" where
  "accounting s \<longleftrightarrow>
     units s = capacity s \<and> in_repair s = repairing s \<and> total_arrivals s = demand s
     \<and> put_queue s = [] \<and> set (get_queue s) \<subseteq> {1} \<and> 0 \<le> level s \<and> 0 \<le> served s"

definition ledger ::
  "state \<Rightarrow> int \<times> int \<times> int \<times> int \<times> int \<times> int list \<times> int \<times> int" where
  "ledger s =
     (units s, repairing s, demand s, capacity s, in_repair s, put_queue s,
      total_arrivals s, served s)"

subsection \<open>The order of the events\<close>

text \<open>
  An event is immediate when it is only ever scheduled with delay 0. \<open>raises\<close> is the
  exception a failed process event carries.
\<close>

fun immediate :: "event \<Rightarrow> bool" where
  "immediate (Timeout p) = False"
| "immediate Until = False"
| "immediate ev = True"

fun raises :: "event \<Rightarrow> exn set" where
  "raises (Process p (Some e)) = {e}"
| "raises ev = {}"

text \<open>The entry of the \<open>until\<close> event: it is the third event \<open>run_simulation\<close> schedules.\<close>

definition until_entry :: "rat \<Rightarrow> entry" where
  "until_entry T = (T, URGENT, 2, Until)"

definition timely :: "rat \<Rightarrow> state \<Rightarrow> bool" where
  "timely T s \<longleftrightarrow>
     sorted (map key (queue s)) \<and> 2 < eid s \<and>
     (\<forall>x\<in>set (queue s).
        now s \<le> time_of x
        \<and> (immediate (ev_of x) \<longrightarrow> time_of x \<le> now s)
        \<and> (ev_of x = Until \<longrightarrow> x = until_entry T)
        \<and> (x \<noteq> until_entry T \<longrightarrow> time_of x < T \<or> key (until_entry T) < key x)
        \<and> raises (ev_of x) \<subseteq> {ValueError, ZeroDivisionError})"

definition running :: "rat \<Rightarrow> state \<Rightarrow> bool" where
  "running T s \<longleftrightarrow> timely T s \<and> until_entry T \<in> set (queue s) \<and> now s < T"

text \<open>
  \<open>stopped\<close>: the state in which the \<open>until\<close> event has ended the loop. \<open>extends\<close>: what
  the callbacks of an event never undo.
\<close>

definition stopped :: "rat \<Rightarrow> state \<Rightarrow> bool" where
  "stopped T s \<longleftrightarrow>
     now s = T \<and> (\<forall>x\<in>set (queue s). T \<le> time_of x \<and> \<not> immediate (ev_of x))"

definition extends :: "state \<Rightarrow> state \<Rightarrow> bool" where
  "extends s s' \<longleftrightarrow>
     now s' = now s \<and> capacity s' = capacity s \<and> set (queue s) \<subseteq> set (queue s')"

subsection \<open>The series of snapshots\<close>

text \<open>
  \<open>taken_in snap s\<close>: the snapshot shows the clock, the container and the counters of
  the state \<open>s\<close>. \<open>counters\<close>: what the container's triggers never touch.
\<close>

definition taken_in :: "snapshot \<Rightarrow> state \<Rightarrow> bool" where
  "taken_in snap s \<longleftrightarrow>
     time snap = now s \<and> available_supply snap = level s
     \<and> backlog snap = int (length (get_queue s)) \<and> snap_in_repair snap = in_repair s
     \<and> snap_total_arrivals snap = total_arrivals s \<and> snap_served snap = served s"

definition counters :: "state \<Rightarrow> int \<times> int \<times> int \<times> snapshot list \<times> nat" where
  "counters s = (total_arrivals s, served s, in_repair s, timeseries s, rng s)"

definition monotone_series :: "state \<Rightarrow> bool" where
  "monotone_series s \<longleftrightarrow>
     sorted (map time (timeseries s)) \<and> sorted (map snap_total_arrivals (timeseries s))
     \<and> sorted (map snap_served (timeseries s))
     \<and> (\<forall>x\<in>set (timeseries s).
           time x \<le> now s \<and> snap_total_arrivals x \<le> total_arrivals s
           \<and> snap_served x \<le> served s \<and> snap_served x \<le> snap_total_arrivals x)"

text \<open>What holds in every state of a run with horizon \<open>T\<close> and initial supply \<open>n0\<close>.\<close>

definition sound :: "rat \<Rightarrow> int \<Rightarrow> state \<Rightarrow> bool" where
  "sound T n0 s \<longleftrightarrow> accounting s \<and> running T s \<and> monotone_series s \<and> capacity s = n0"

subsection \<open>The two perpetual processes\<close>

text \<open>
  \<open>awaited p s\<close>: the times of the entries that will start or resume the process \<open>p\<close>.
  \<open>sample_time cfg k\<close> is the time of the sample number \<open>k\<close>, counted from 0, and
  \<open>arrival cfg k\<close> the time at which the generator's timeout number \<open>k\<close> fires, when no
  delay is negative.
\<close>

definition awaited :: "proc \<Rightarrow> state \<Rightarrow> rat list" where
  "awaited p s =
     map time_of (filter (\<lambda>x. ev_of x = Initialize p \<or> ev_of x = Timeout p) (queue s))"

definition sample_time :: "config \<Rightarrow> nat \<Rightarrow> rat" where
  "sample_time cfg k = of_nat k * record_interval cfg"

definition arrival :: "config \<Rightarrow> nat \<Rightarrow> rat" where
  "arrival cfg k = sum_list (map (unit_draws cfg) [0..<k]) / demand_rate cfg"

text \<open>
  \<open>sampling\<close>: the samples taken so far are those of the times \<open>0, r, 2r, \<dots>\<close>, and the
  observer waits for one event, at the time of the next sample. \<open>clean\<close>: no failed
  process is in the queue. \<open>arriving\<close>: the generator waits for one event, at the time
  of the next arrival. \<open>in_range\<close>: the arguments and the draws with which no timeout is
  negative and no division fails.
\<close>

definition sampling :: "config \<Rightarrow> state \<Rightarrow> bool" where
  "sampling cfg s \<longleftrightarrow>
     map time (timeseries s) = map (sample_time cfg) [0..<length (timeseries s)]
     \<and> awaited MetricsObserver s = [sample_time cfg (length (timeseries s))]"

definition clean :: "state \<Rightarrow> bool" where
  "clean s \<longleftrightarrow> (\<forall>x\<in>set (queue s). raises (ev_of x) = {})"

definition arriving :: "config \<Rightarrow> state \<Rightarrow> bool" where
  "arriving cfg s \<longleftrightarrow> awaited VehicleGenerator s = [arrival cfg (rng s)] \<and> clean s"

definition in_range :: "config \<Rightarrow> bool" where
  "in_range cfg \<longleftrightarrow>
     0 < demand_rate cfg \<and> 0 \<le> repair_cycle_time cfg \<and> 0 \<le> record_interval cfg
     \<and> (\<forall>k. 0 \<le> unit_draws cfg k)"

text \<open>The sample of the untouched pool, at time 0.\<close>

definition first_snapshot :: "int \<Rightarrow> snapshot" where
  "first_snapshot n0 =
     \<lparr>time = 0, available_supply = n0, backlog = 0, snap_in_repair = 0,
      snap_total_arrivals = 0, snap_served = 0, satisfaction_rate = 0\<rparr>"

text \<open>
  With a negative \<open>repair_cycle_time\<close> every repair process fails at its start, so that
  as long as no step has raised, every vehicle served so far has a repair process that
  is about to start or about to fail.
\<close>

definition failing_repairs :: "state \<Rightarrow> bool" where
  "failing_repairs s \<longleftrightarrow>
     served s = pending (Initialize RepairProcess) s
                + pending (Process RepairProcess (Some ValueError)) s"

subsection \<open>The end of the loop\<close>

text \<open>
  A measure of the work that is left before the horizon: each event weighs more than
  what its callbacks can schedule, \<open>N\<close> bounds the draws and \<open>K\<close> the samples that can
  be taken before the horizon.
\<close>

fun weight :: "event \<Rightarrow> nat" where
  "weight (Initialize Vehicle) = 7"
| "weight ContainerGet = 6"
| "weight (Initialize RepairProcess) = 4"
| "weight (Timeout RepairProcess) = 3"
| "weight ContainerPut = 2"
| "weight Until = 0"
| "weight ev = 1"

definition potential :: "nat \<Rightarrow> nat \<Rightarrow> state \<Rightarrow> nat" where
  "potential N K s =
     sum_list (map (\<lambda>x. weight (ev_of x)) (queue s))
     + 6 * length (get_queue s) + 2 * length (put_queue s)
     + 9 * (N - rng s) + 2 * (K - length (timeseries s))"

subsection \<open>The keys of the heap\<close>

text \<open>
  \<open>fresh\<close>: no two entries of the queue share a key, and the counter of the event ids is
  beyond every id in use. \<open>settled\<close>: what the heap needs to have one least entry.
\<close>

fun eid_of :: "entry \<Rightarrow> nat" where
  "eid_of (t, p, i, ev) = i"

definition fresh :: "state \<Rightarrow> bool" where
  "fresh s \<longleftrightarrow> distinct (map key (queue s)) \<and> (\<forall>x\<in>set (queue s). eid_of x < eid s)"

definition settled :: "rat \<Rightarrow> state \<Rightarrow> bool" where
  "settled T s \<longleftrightarrow> running T s \<and> fresh s"

section \<open>The heap and the random generator\<close>

text \<open>
  The queue of the environment is a heap of tuples \<open>(time, priority, eid, event)\<close>, and
  \<open>Environment.step\<close> takes its next event with \<open>heappop\<close>, which hands out a least
  tuple. \<open>heappop s x s'\<close> lets this be any entry \<open>x\<close> whose key is least; \<open>dispatch\<close> is
  the rest of \<open>Environment.step\<close>, and \<open>runs cfg s (e, s')\<close> the loop of
  \<open>Environment.run\<close> over such steps, from \<open>s\<close> until a step raises \<open>e\<close> in \<open>s'\<close>.
\<close>

definition heappop :: "state \<Rightarrow> entry \<Rightarrow> state \<Rightarrow> bool" where
  "heappop s x s' \<longleftrightarrow>
     x \<in> set (queue s) \<and> (\<forall>y\<in>set (queue s). key x \<le> key y)
     \<and> s' = s\<lparr>now := time_of x, queue := remove1 x (queue s)\<rparr>"

definition dispatch :: "config \<Rightarrow> entry \<Rightarrow> state \<Rightarrow> exn option \<times> state" where
  "dispatch cfg x s =
     (let s' = callbacks cfg (ev_of x) s
      in case ev_of x of
           Until \<Rightarrow> (Some StopSimulation, s')
         | Process pr (Some e) \<Rightarrow> (Some e, s')
         | _ \<Rightarrow> (None, s'))"

inductive runs :: "config \<Rightarrow> state \<Rightarrow> exn \<times> state \<Rightarrow> bool" for cfg where
  empty: "queue s = [] \<Longrightarrow> runs cfg s (EmptySchedule, s)"
| raise: "heappop s x s1 \<Longrightarrow> dispatch cfg x s1 = (Some e, s') \<Longrightarrow> runs cfg s (e, s')"
| continue: "heappop s x s1 \<Longrightarrow> dispatch cfg x s1 = (None, s') \<Longrightarrow> runs cfg s' r
     \<Longrightarrow> runs cfg s r"

text \<open>
  \<open>run_simulation\<close> takes no seed and never seeds: \<open>vehicle_generator\<close> draws from the
  generator of the module \<open>random\<close>, whose state outlives the call. A state of the
  generator is the sequence of the draws it will give, which is what \<open>random.seed\<close>
  fixes; a call that has taken \<open>k\<close> draws leaves it in the state \<open>advance g k\<close>.
  \<open>invocation g \<dots> (r, g')\<close>: the call made in the state \<open>g\<close> of the generator returns or
  raises \<open>r\<close> and leaves the generator in the state \<open>g'\<close>.
\<close>

definition advance :: "(nat \<Rightarrow> rat) \<Rightarrow> nat \<Rightarrow> nat \<Rightarrow> rat" where
  "advance g k = (\<lambda>j. g (j + k))"

inductive invocation ::
  "(nat \<Rightarrow> rat) \<Rightarrow> int \<Rightarrow> rat \<Rightarrow> rat \<Rightarrow> rat \<Rightarrow> rat option
     \<Rightarrow> (exn + final_metrics \<times> snapshot list) \<times> (nat \<Rightarrow> rat) \<Rightarrow> bool" where
  refused: "start_state initial_supply = Inl e
     \<Longrightarrow> invocation g initial_supply rate cycle sim_time interval (Inl e, g)"
| no_time: "start_state initial_supply = Inr s \<Longrightarrow> sim_time \<le> now s
     \<Longrightarrow> invocation g initial_supply rate cycle sim_time interval (Inl ValueError, g)"
| completed: "start_state initial_supply = Inr s \<Longrightarrow> \<not> sim_time \<le> now s
     \<Longrightarrow> runs (make_config g rate cycle interval)
           (schedule Until URGENT (sim_time - now s) s) (StopSimulation, s')
     \<Longrightarrow> invocation g initial_supply rate cycle sim_time interval
           (Inr (compute_final_metrics s', timeseries s'), advance g (rng s'))"
| raised: "start_state initial_supply = Inr s \<Longrightarrow> \<not> sim_time \<le> now s
     \<Longrightarrow> runs (make_config g rate cycle interval)
           (schedule Until URGENT (sim_time - now s) s) (e, s')
     \<Longrightarrow> e \<noteq> StopSimulation
     \<Longrightarrow> invocation g initial_supply rate cycle sim_time interval
           (Inl (if e = EmptySchedule then RuntimeError else e), advance g (rng s'))"

section \<open>Properties\<close>

subsection \<open>The books of a state are kept by every step\<close>

declare trigger_get.simps [simp del] trigger_put.simps [simp del]

lemma filter_insort_key_length:
  "length (filter P (insort_key f x xs)) = length (filter P (x # xs))"
  by (induction xs) auto

lemma schedule_fields [simp]:
  "now (schedule ev p d s) = now s"
  "level (schedule ev p d s) = level s"
  "capacity (schedule ev p d s) = capacity s"
  "get_queue (schedule ev p d s) = get_queue s"
  "put_queue (schedule ev p d s) = put_queue s"
  "total_arrivals (schedule ev p d s) = total_arrivals s"
  "served (schedule ev p d s) = served s"
  "in_repair (schedule ev p d s) = in_repair s"
  "timeseries (schedule ev p d s) = timeseries s"
  "rng (schedule ev p d s) = rng s"
  "eid (schedule ev p d s) = eid s + 1"
  by (simp_all add: schedule_def)

lemma pending_schedule [simp]:
  "pending ev (schedule ev' p d s) = pending ev s + (if ev' = ev then 1 else 0)"
  by (simp add: pending_def schedule_def filter_insort_key_length)

lemma pending_update [simp]:
  "pending ev (s\<lparr>now := a\<rparr>) = pending ev s"
  "pending ev (s\<lparr>level := b\<rparr>) = pending ev s"
  "pending ev (s\<lparr>get_queue := c\<rparr>) = pending ev s"
  "pending ev (s\<lparr>put_queue := d\<rparr>) = pending ev s"
  "pending ev (s\<lparr>total_arrivals := e\<rparr>) = pending ev s"
  "pending ev (s\<lparr>served := f\<rparr>) = pending ev s"
  "pending ev (s\<lparr>in_repair := g\<rparr>) = pending ev s"
  "pending ev (s\<lparr>timeseries := h\<rparr>) = pending ev s"
  "pending ev (s\<lparr>rng := k\<rparr>) = pending ev s"
  by (simp_all add: pending_def)

lemma pending_pop:
  "queue s = (t, p, i, ev) # q \<Longrightarrow>
   pending ev' (s\<lparr>now := t, queue := q\<rparr>) = pending ev' s - (if ev = ev' then 1 else 0)"
  by (simp add: pending_def)

lemma trigger_get_ledger:
  "set (get_queue s) \<subseteq> {1} \<Longrightarrow> 0 \<le> level s \<Longrightarrow>
   ledger (trigger_get s) = ledger s \<and> set (get_queue (trigger_get s)) \<subseteq> {1}
     \<and> 0 \<le> level (trigger_get s)"
proof (induction s rule: trigger_get.induct)
  case (1 s)
  show ?case
  proof (cases "get_queue s")
    case Nil
    then show ?thesis using 1 by (simp add: trigger_get.simps)
  next
    case (Cons a rest)
    then have a: "a = 1" using 1 by auto
    show ?thesis
    proof (cases "a \<le> level s")
      case True
      let ?s = "schedule ContainerGet NORMAL 0 (s\<lparr>level := level s - a, get_queue := rest\<rparr>)"
      have "ledger (trigger_get ?s) = ledger ?s \<and> set (get_queue (trigger_get ?s)) \<subseteq> {1}
              \<and> 0 \<le> level (trigger_get ?s)"
        using 1 Cons True a by (intro "1.IH"[OF Cons True]) auto
      moreover have "ledger ?s = ledger s"
        using a Cons by (simp add: ledger_def units_def repairing_def demand_def)
      moreover have "trigger_get s = trigger_get ?s"
        using Cons True by (subst trigger_get.simps) simp
      ultimately show ?thesis by simp
    next
      case False
      then show ?thesis using 1 Cons by (subst (1 2 3) trigger_get.simps) simp
    qed
  qed
qed

lemma pending_nonneg [simp]: "0 \<le> pending ev s"
  by (simp add: pending_def)

lemma trigger_put_idle: "put_queue s = [] \<Longrightarrow> trigger_put s = s"
  by (subst trigger_put.simps) simp

lemma container_put_one:
  assumes "put_queue s = []" and "level s < capacity s"
  shows "container_put 1 s = schedule ContainerPut NORMAL 0 (s\<lparr>level := level s + 1, put_queue := []\<rparr>)"
proof -
  let ?s = "schedule ContainerPut NORMAL 0 (s\<lparr>level := level s + 1, put_queue := []\<rparr>)"
  have "container_put 1 s = trigger_put ?s"
    using assms unfolding container_put_def by (subst trigger_put.simps) simp
  also have "\<dots> = ?s"
    by (rule trigger_put_idle) simp
  finally show ?thesis .
qed

lemma accounting_callbacks:
  assumes acc: "accounting s" and q: "queue s = (t, p, i, ev) # q"
    and ev: "ev \<noteq> Process RepairProcess (Some ValueError)"
  shows "accounting (callbacks cfg ev (s\<lparr>now := t, queue := q\<rparr>))"
proof -
  let ?s = "s\<lparr>now := t, queue := q\<rparr>"
  note pop = pending_pop [OF q]
  note defs = accounting_def units_def repairing_def demand_def
  show ?thesis
  proof (cases ev)
    case (Initialize pr)
    show ?thesis
    proof (cases pr)
      case VehicleGenerator
      then show ?thesis using acc Initialize
        by (simp add: defs pop vehicle_generator_def expovariate_def timeout_def Let_def)
    next
      case MetricsObserver
      then show ?thesis using acc Initialize
        by (simp add: defs pop metrics_observer_def timeout_def)
    next
      case Vehicle
      let ?a = "?s\<lparr>total_arrivals := total_arrivals s + 1, get_queue := get_queue s @ [1]\<rparr>"
      have pre: "set (get_queue ?a) \<subseteq> {1}" "0 \<le> level ?a"
        using acc by (auto simp: accounting_def)
      have "ledger (trigger_get ?a) = ledger ?a" "set (get_queue (trigger_get ?a)) \<subseteq> {1}"
           "0 \<le> level (trigger_get ?a)"
        using trigger_get_ledger [OF pre] by simp_all
      moreover have "callbacks cfg ev ?s = trigger_get ?a"
        using Initialize Vehicle by (simp add: vehicle_arrive_def container_get_def)
      ultimately show ?thesis using acc Initialize Vehicle
        by (simp add: defs ledger_def pop)
    next
      case RepairProcess
      then show ?thesis using acc Initialize
        by (simp add: defs pop repair_begin_def timeout_def)
    qed
  next
    case (Timeout pr)
    show ?thesis
    proof (cases pr)
      case VehicleGenerator
      then show ?thesis using acc Timeout
        by (simp add: defs pop vehicle_generator_def expovariate_def timeout_def Let_def
            env_process_def)
    next
      case MetricsObserver
      then show ?thesis using acc Timeout
        by (simp add: defs pop metrics_observer_def timeout_def)
    next
      case Vehicle
      then show ?thesis using acc Timeout by (simp add: defs pop)
    next
      case RepairProcess
      have "1 \<le> pending (Timeout RepairProcess) s"
        using q Timeout RepairProcess by (simp add: pending_def)
      moreover have "units s = capacity s"
        using acc by (simp add: accounting_def)
      ultimately have "level s < capacity s"
        using pending_nonneg [of ContainerGet s]
          pending_nonneg [of "Initialize RepairProcess" s]
          pending_nonneg [of "Process RepairProcess (Some ValueError)" s]
        unfolding units_def by linarith
      then have room: "level ?s < capacity ?s"
        by simp
      have pq: "put_queue ?s = []" using acc by (simp add: accounting_def)
      show ?thesis using acc Timeout RepairProcess
        by (simp add: defs pop repair_return_def container_put_one [OF pq room])
    qed
  next
    case ContainerGet
    have "trigger_put ?s = ?s"
      using acc by (intro trigger_put_idle) (simp add: accounting_def)
    then show ?thesis using acc ContainerGet
      by (simp add: defs pop vehicle_served_def env_process_def)
  next
    case ContainerPut
    have pre: "set (get_queue ?s) \<subseteq> {1}" "0 \<le> level ?s"
      using acc by (auto simp: accounting_def)
    have "ledger (trigger_get ?s) = ledger ?s" "set (get_queue (trigger_get ?s)) \<subseteq> {1}"
         "0 \<le> level (trigger_get ?s)"
      using trigger_get_ledger [OF pre] by simp_all
    then show ?thesis using acc ContainerPut
      by (simp add: defs ledger_def pop repair_end_def)
  next
    case (Process pr r)
    then show ?thesis using acc ev by (auto simp: defs pop)
  next
    case Until
    then show ?thesis using acc by (simp add: defs pop)
  qed
qed

lemma step_accounting:
  assumes "accounting s" and "step cfg s = (r, s')" and "r = None \<or> r = Some StopSimulation"
  shows "accounting s'"
proof (cases "queue s")
  case Nil
  then show ?thesis using assms by (simp add: step_def)
next
  case (Cons x q)
  obtain t p i ev where x: "x = (t, p, i, ev)" by (cases x) auto
  have "ev \<noteq> Process RepairProcess (Some ValueError)"
    using assms Cons x by (auto simp: step_def Let_def)
  then have "accounting (callbacks cfg ev (s\<lparr>now := t, queue := q\<rparr>))"
    using accounting_callbacks assms(1) Cons x by simp
  moreover have "s' = callbacks cfg ev (s\<lparr>now := t, queue := q\<rparr>)"
    using assms(2) Cons x by (auto simp: step_def Let_def split: event.splits option.splits)
  ultimately show ?thesis by simp
qed

subsection \<open>The order of the events is kept by every step\<close>

lemma timely_update [simp]:
  "timely T (s\<lparr>level := b\<rparr>) = timely T s"
  "timely T (s\<lparr>get_queue := c\<rparr>) = timely T s"
  "timely T (s\<lparr>put_queue := d\<rparr>) = timely T s"
  "timely T (s\<lparr>total_arrivals := e\<rparr>) = timely T s"
  "timely T (s\<lparr>served := f\<rparr>) = timely T s"
  "timely T (s\<lparr>in_repair := g\<rparr>) = timely T s"
  "timely T (s\<lparr>timeseries := h\<rparr>) = timely T s"
  "timely T (s\<lparr>rng := k\<rparr>) = timely T s"
  by (simp_all add: timely_def)

lemma timely_insert:
  assumes "timely T s" and "0 \<le> d" and "immediate ev \<longrightarrow> d = 0" and "ev \<noteq> Until"
    and "raises ev \<subseteq> {ValueError, ZeroDivisionError}"
  shows "timely T (schedule ev p d s)"
proof -
  let ?x = "(now s + d, p, eid s, ev)"
  have new: "now s \<le> time_of ?x" "immediate (ev_of ?x) \<longrightarrow> time_of ?x \<le> now s"
      "ev_of ?x \<noteq> Until" "time_of ?x < T \<or> key (until_entry T) < key ?x"
      "raises (ev_of ?x) \<subseteq> {ValueError, ZeroDivisionError}"
    using assms by (auto simp: timely_def until_entry_def URGENT_def)
  have "sorted (map key (insort_key key ?x (queue s)))"
    using assms(1) by (simp add: timely_def sorted_insort_key)
  moreover have "set (insort_key key ?x (queue s)) = insert ?x (set (queue s))"
    by (simp add: set_insort_key)
  ultimately show ?thesis
    using assms(1) new unfolding timely_def schedule_def by simp
qed

lemma timely_schedule:
  "timely T s \<Longrightarrow> timely T (schedule (Initialize pr) p 0 s)"
  "timely T s \<Longrightarrow> timely T (schedule ContainerGet p 0 s)"
  "timely T s \<Longrightarrow> timely T (schedule ContainerPut p 0 s)"
  "timely T s \<Longrightarrow> timely T (schedule (Process pr None) p 0 s)"
  "timely T s \<Longrightarrow> timely T (schedule (Process pr (Some ValueError)) p 0 s)"
  "timely T s \<Longrightarrow> timely T (schedule (Process pr (Some ZeroDivisionError)) p 0 s)"
  "timely T s \<Longrightarrow> 0 \<le> d \<Longrightarrow> timely T (schedule (Timeout pr) p d s)"
  by (simp_all add: timely_insert)

lemma trigger_get_rule:
  assumes "I s"
    and "\<And>s a rest. I s \<Longrightarrow> get_queue s = a # rest \<Longrightarrow> a \<le> level s \<Longrightarrow>
           I (schedule ContainerGet NORMAL 0 (s\<lparr>level := level s - a, get_queue := rest\<rparr>))"
  shows "I (trigger_get s)"
  using assms(1)
proof (induction s rule: trigger_get.induct)
  case (1 s)
  show ?case
  proof (cases "get_queue s")
    case Nil
    then show ?thesis using 1 by (subst trigger_get.simps) simp
  next
    case (Cons a rest)
    show ?thesis
    proof (cases "a \<le> level s")
      case True
      then show ?thesis
        using 1 Cons assms(2) by (subst trigger_get.simps) simp
    next
      case False
      then show ?thesis using 1 Cons by (subst trigger_get.simps) simp
    qed
  qed
qed

lemma trigger_put_rule:
  assumes "I s"
    and "\<And>s a rest. I s \<Longrightarrow> put_queue s = a # rest \<Longrightarrow> a \<le> capacity s - level s \<Longrightarrow>
           I (schedule ContainerPut NORMAL 0 (s\<lparr>level := level s + a, put_queue := rest\<rparr>))"
  shows "I (trigger_put s)"
  using assms(1)
proof (induction s rule: trigger_put.induct)
  case (1 s)
  show ?case
  proof (cases "put_queue s")
    case Nil
    then show ?thesis using 1 by (subst trigger_put.simps) simp
  next
    case (Cons a rest)
    show ?thesis
    proof (cases "a \<le> capacity s - level s")
      case True
      then show ?thesis
        using 1 Cons assms(2) by (subst trigger_put.simps) simp
    next
      case False
      then show ?thesis using 1 Cons by (subst trigger_put.simps) simp
    qed
  qed
qed

lemma trigger_get_timely: "timely T s \<Longrightarrow> timely T (trigger_get s)"
  by (rule trigger_get_rule) (simp_all add: timely_schedule)

lemma trigger_put_timely: "timely T s \<Longrightarrow> timely T (trigger_put s)"
  by (rule trigger_put_rule) (simp_all add: timely_schedule)

lemma timeout_timely:
  "timely T s \<Longrightarrow> timely T (resume pr (timeout pr d s))"
  by (cases "d < 0") (simp_all add: timeout_def timely_schedule)

lemma callbacks_timely:
  assumes "timely T s"
  shows "timely T (callbacks cfg ev s)"
proof (cases ev)
  case (Initialize pr)
  then show ?thesis using assms
    by (cases pr)
      (simp_all add: vehicle_generator_def expovariate_def Let_def metrics_observer_def
        vehicle_arrive_def container_get_def repair_begin_def timeout_timely
        trigger_get_timely timely_schedule)
next
  case (Timeout pr)
  then show ?thesis using assms
    by (cases pr)
      (simp_all add: vehicle_generator_def expovariate_def Let_def metrics_observer_def
        env_process_def repair_return_def container_put_def timeout_timely
        trigger_put_timely timely_schedule)
next
  case ContainerGet
  then show ?thesis using assms
    by (simp add: vehicle_served_def env_process_def trigger_put_timely timely_schedule)
next
  case ContainerPut
  then show ?thesis using assms
    by (simp add: repair_end_def trigger_get_timely timely_schedule)
next
  case (Process pr r)
  then show ?thesis using assms by simp
next
  case Until
  then show ?thesis using assms by simp
qed

lemma key_le_time: "key x \<le> key y \<Longrightarrow> time_of x \<le> time_of y"
  by (cases x; cases y) auto

lemma timely_pop:
  assumes "timely T s" and "queue s = x # q"
  shows "timely T (s\<lparr>now := time_of x, queue := q\<rparr>)"
proof -
  have "\<forall>y\<in>set q. key x \<le> key y"
    using assms by (simp add: timely_def)
  then have "\<forall>y\<in>set q. time_of x \<le> time_of y"
    using key_le_time by blast
  moreover have "now s \<le> time_of x"
    using assms by (simp add: timely_def)
  ultimately show ?thesis
    using assms unfolding timely_def by auto
qed

lemma running_pop:
  assumes "running T s" and "queue s = x # q" and "ev_of x \<noteq> Until"
  shows "running T (s\<lparr>now := time_of x, queue := q\<rparr>)"
proof -
  have t: "timely T s" and u: "until_entry T \<in> set (queue s)"
    using assms(1) by (simp_all add: running_def)
  have ne: "x \<noteq> until_entry T"
    using assms(3) by (auto simp: until_entry_def)
  then have inq: "until_entry T \<in> set q"
    using u assms(2) by auto
  have "\<forall>y\<in>set q. key x \<le> key y"
    using t assms(2) by (simp add: timely_def)
  then have "key x \<le> key (until_entry T)"
    using inq by blast
  moreover have "time_of x < T \<or> key (until_entry T) < key x"
    using t assms(2) ne by (simp add: timely_def)
  ultimately have "time_of x < T"
    by auto
  then show ?thesis
    using timely_pop [OF t assms(2)] inq by (simp add: running_def)
qed

lemma running_stop:
  assumes "running T s" and "queue s = x # q" and "ev_of x = Until"
  shows "time_of x = T \<and> (\<forall>y\<in>set q. T \<le> time_of y \<and> \<not> immediate (ev_of y))"
proof -
  have t: "timely T s" and k: "now s < T"
    using assms(1) by (simp_all add: running_def)
  have x: "x = until_entry T"
    using t assms(2,3) by (simp add: timely_def)
  then have tx: "time_of x = T" by (simp add: until_entry_def)
  have "\<forall>y\<in>set q. key x \<le> key y"
    using t assms(2) by (simp add: timely_def)
  then have late: "\<forall>y\<in>set q. T \<le> time_of y"
    using key_le_time tx by metis
  have "\<forall>y\<in>set q. immediate (ev_of y) \<longrightarrow> time_of y \<le> now s"
    using t assms(2) by (simp add: timely_def)
  then have "\<forall>y\<in>set q. \<not> immediate (ev_of y)"
    using late k by fastforce
  then show ?thesis using tx late by simp
qed

subsection \<open>Steps and runs\<close>

lemma step_popped:
  assumes "queue s = x # q"
  shows "snd (step cfg s) = callbacks cfg (ev_of x) (s\<lparr>now := time_of x, queue := q\<rparr>)"
  using assms by (cases x) (simp add: step_def Let_def split: event.splits option.splits)

lemma step_signal:
  assumes "queue s = x # q"
  shows "fst (step cfg s) =
           (if ev_of x = Until then Some StopSimulation
            else if raises (ev_of x) = {} then None else Some (the_elem (raises (ev_of x))))"
proof -
  obtain t p i ev where x: "x = (t, p, i, ev)" by (cases x) auto
  show ?thesis
  proof (cases ev)
    case (Process pr r)
    then show ?thesis using assms x by (cases r) (simp_all add: step_def Let_def)
  qed (use assms x in \<open>simp_all add: step_def Let_def\<close>)
qed

lemma step_empty: "queue s = [] \<Longrightarrow> step cfg s = (Some EmptySchedule, s)"
  by (simp add: step_def)

lemma extends_refl [simp]: "extends s s"
  by (simp add: extends_def)

lemma extends_schedule: "extends s s' \<Longrightarrow> extends s (schedule ev p d s')"
  by (auto simp: extends_def schedule_def set_insort_key)

lemma extends_update [simp]:
  "extends s (s'\<lparr>level := b\<rparr>) = extends s s'"
  "extends s (s'\<lparr>get_queue := c\<rparr>) = extends s s'"
  "extends s (s'\<lparr>put_queue := d\<rparr>) = extends s s'"
  "extends s (s'\<lparr>total_arrivals := e\<rparr>) = extends s s'"
  "extends s (s'\<lparr>served := f\<rparr>) = extends s s'"
  "extends s (s'\<lparr>in_repair := g\<rparr>) = extends s s'"
  "extends s (s'\<lparr>timeseries := h\<rparr>) = extends s s'"
  "extends s (s'\<lparr>rng := k\<rparr>) = extends s s'"
  by (simp_all add: extends_def)

lemma trigger_get_extends: "extends s s' \<Longrightarrow> extends s (trigger_get s')"
  by (rule trigger_get_rule) (simp_all add: extends_schedule)

lemma trigger_put_extends: "extends s s' \<Longrightarrow> extends s (trigger_put s')"
  by (rule trigger_put_rule) (simp_all add: extends_schedule)

lemma timeout_extends: "extends s s' \<Longrightarrow> extends s (resume pr (timeout pr d s'))"
  by (simp add: timeout_def extends_schedule)

lemma callbacks_extends: "extends s (callbacks cfg ev s)"
proof (cases ev)
  case (Initialize pr)
  then show ?thesis
    by (cases pr)
      (simp_all add: vehicle_generator_def expovariate_def Let_def metrics_observer_def
        vehicle_arrive_def container_get_def repair_begin_def timeout_extends
        trigger_get_extends extends_schedule)
next
  case (Timeout pr)
  then show ?thesis
    by (cases pr)
      (simp_all add: vehicle_generator_def expovariate_def Let_def metrics_observer_def
        env_process_def repair_return_def container_put_def timeout_extends
        trigger_put_extends extends_schedule)
next
  case ContainerGet
  then show ?thesis
    by (simp add: vehicle_served_def env_process_def trigger_put_extends extends_schedule)
next
  case ContainerPut
  then show ?thesis
    by (simp add: repair_end_def trigger_get_extends extends_schedule)
qed simp_all

lemma step_running:
  assumes "running T s" and "step cfg s = (None, s')"
  shows "running T s'"
proof (cases "queue s")
  case Nil
  then show ?thesis using assms by (simp add: step_empty)
next
  case (Cons x q)
  have "fst (step cfg s) = None" using assms(2) by simp
  then have ne: "ev_of x \<noteq> Until"
    using step_signal [OF Cons, of cfg] by auto
  let ?s = "s\<lparr>now := time_of x, queue := q\<rparr>"
  have r: "running T ?s" using running_pop [OF assms(1) Cons ne] .
  have s': "s' = callbacks cfg (ev_of x) ?s"
    using step_popped [OF Cons, of cfg] assms(2) by simp
  have "timely T s'" using r unfolding s' running_def by (simp add: callbacks_timely)
  moreover have "extends ?s s'"
    unfolding s' by (rule callbacks_extends)
  ultimately show ?thesis using r by (auto simp: running_def extends_def)
qed

lemma step_stopped:
  assumes "running T s" and "step cfg s = (Some StopSimulation, s')"
  shows "stopped T s'"
proof (cases "queue s")
  case Nil
  then show ?thesis using assms by (simp add: step_empty)
next
  case (Cons x q)
  have t: "timely T s" using assms(1) by (simp add: running_def)
  have "raises (ev_of x) \<subseteq> {ValueError, ZeroDivisionError}"
    using t Cons by (simp add: timely_def)
  moreover have "fst (step cfg s) = Some StopSimulation" using assms(2) by simp
  ultimately have u: "ev_of x = Until"
    using step_signal [OF Cons, of cfg]
    by (cases "ev_of x" rule: raises.cases) (auto split: if_splits)
  have s': "s' = s\<lparr>now := time_of x, queue := q\<rparr>"
    using step_popped [OF Cons, of cfg] assms(2) u by simp
  show ?thesis
    using running_stop [OF assms(1) Cons u] by (simp add: s' stopped_def)
qed

lemma stopped_pending:
  assumes "stopped T s" and "immediate ev"
  shows "pending ev s = 0"
proof -
  have "filter (\<lambda>x. ev_of x = ev) (queue s) = []"
    using assms by (auto simp: stopped_def filter_empty_conv)
  then show ?thesis by (simp add: pending_def)
qed

lemma steps_invariant:
  assumes "steps cfg n s = Some s'" and "I s"
    and "\<And>s s'. I s \<Longrightarrow> step cfg s = (None, s') \<Longrightarrow> I s'"
  shows "I s'"
  using assms(1,2)
proof (induction n arbitrary: s)
  case 0
  then show ?case by simp
next
  case (Suc n)
  obtain r s1 where st: "step cfg s = (r, s1)" by (cases "step cfg s") auto
  with Suc.prems(1) have r: "r = None" and rest: "steps cfg n s1 = Some s'"
    by (auto split: option.splits)
  have "I s1" using assms(3) Suc.prems(2) st r by simp
  then show ?case using Suc.IH rest by simp
qed

lemma run_loop_steps:
  assumes "run_loop cfg fuel s = Some (e, s')"
  shows "\<exists>n s1. steps cfg n s = Some s1 \<and> step cfg s1 = (Some e, s')"
  using assms
proof (induction fuel arbitrary: s)
  case 0
  then show ?case by simp
next
  case (Suc fuel)
  obtain r s1 where st: "step cfg s = (r, s1)" by (cases "step cfg s") auto
  show ?case
  proof (cases r)
    case None
    then have "run_loop cfg fuel s1 = Some (e, s')"
      using Suc.prems st by simp
    then obtain n s2 where "steps cfg n s1 = Some s2" "step cfg s2 = (Some e, s')"
      using Suc.IH by blast
    then have "steps cfg (Suc n) s = Some s2" using st None by simp
    then show ?thesis using \<open>step cfg s2 = (Some e, s')\<close> by blast
  next
    case (Some e')
    then have "e' = e" "s1 = s'" using Suc.prems st by simp_all
    then have "steps cfg 0 s = Some s \<and> step cfg s = (Some e, s')"
      using st Some by simp
    then show ?thesis by blast
  qed
qed

lemma start_state_books:
  assumes "start_state initial_supply = Inr s0" and "0 < T"
  shows "accounting (schedule Until URGENT T s0)" and "running T (schedule Until URGENT T s0)"
    and "capacity s0 = initial_supply" and "now s0 = 0"
proof -
  have pos: "0 < initial_supply"
    using assms(1) by (auto simp: start_state_def container_init_def split: if_splits)
  then have s0: "s0 = env_process MetricsObserver (env_process VehicleGenerator
      (environment\<lparr>level := initial_supply, capacity := initial_supply,
         get_queue := [], put_queue := []\<rparr>))"
    using assms(1) by (auto simp: start_state_def container_init_def split: if_splits)
  show "capacity s0 = initial_supply" and "now s0 = 0"
    by (simp_all add: s0 env_process_def environment_def)
  show "accounting (schedule Until URGENT T s0)"
    using pos by (simp add: s0 accounting_def units_def repairing_def demand_def
        env_process_def pending_def environment_def schedule_def)
  show "running T (schedule Until URGENT T s0)"
    using assms(2) by (simp add: s0 running_def timely_def until_entry_def env_process_def
        environment_def schedule_def URGENT_def)
qed

subsection \<open>Counters and snapshots\<close>

lemma counters_schedule [simp]: "counters (schedule ev p d s) = counters s"
  by (simp add: counters_def)

lemma counters_update [simp]:
  "counters (s\<lparr>level := b\<rparr>) = counters s"
  "counters (s\<lparr>get_queue := c\<rparr>) = counters s"
  "counters (s\<lparr>put_queue := d\<rparr>) = counters s"
  "counters (s\<lparr>now := a\<rparr>) = counters s"
  "counters (s\<lparr>queue := q\<rparr>) = counters s"
  by (simp_all add: counters_def)

lemma trigger_get_counters: "counters (trigger_get s) = counters s"
  by (rule trigger_get_rule [where I = "\<lambda>s'. counters s' = counters s"]) simp_all

lemma trigger_put_counters: "counters (trigger_put s) = counters s"
  by (rule trigger_put_rule [where I = "\<lambda>s'. counters s' = counters s"]) simp_all

lemma counters_fields:
  assumes "counters s' = counters s"
  shows "total_arrivals s' = total_arrivals s" "served s' = served s"
    "in_repair s' = in_repair s" "timeseries s' = timeseries s" "rng s' = rng s"
  using assms by (simp_all add: counters_def)

lemma callbacks_series:
  "timeseries (callbacks cfg ev s) =
     (if ev = Initialize MetricsObserver \<or> ev = Timeout MetricsObserver
      then timeseries s @ [take_snapshot s] else timeseries s)"
proof (cases ev)
  case (Initialize pr)
  then show ?thesis
    by (cases pr)
      (simp_all add: vehicle_generator_def expovariate_def Let_def metrics_observer_def
        vehicle_arrive_def container_get_def repair_begin_def timeout_def
        counters_fields [OF trigger_get_counters])
next
  case (Timeout pr)
  then show ?thesis
    by (cases pr)
      (simp_all add: vehicle_generator_def expovariate_def Let_def metrics_observer_def
        env_process_def repair_return_def container_put_def timeout_def
        counters_fields [OF trigger_put_counters])
next
  case ContainerGet
  then show ?thesis
    by (simp add: vehicle_served_def env_process_def counters_fields [OF trigger_put_counters])
next
  case ContainerPut
  then show ?thesis
    by (simp add: repair_end_def counters_fields [OF trigger_get_counters])
qed simp_all

lemma observer_fields:
  assumes "ev = Initialize MetricsObserver \<or> ev = Timeout MetricsObserver"
  shows "taken_in (take_snapshot s) (callbacks cfg ev s)"
  using assms by (auto simp: taken_in_def take_snapshot_def metrics_observer_def timeout_def)

lemma callbacks_counters_mono:
  "total_arrivals s \<le> total_arrivals (callbacks cfg ev s)
   \<and> served s \<le> served (callbacks cfg ev s)"
proof (cases ev)
  case (Initialize pr)
  then show ?thesis
    by (cases pr)
      (simp_all add: vehicle_generator_def expovariate_def Let_def metrics_observer_def
        vehicle_arrive_def container_get_def repair_begin_def timeout_def
        counters_fields [OF trigger_get_counters])
next
  case (Timeout pr)
  then show ?thesis
    by (cases pr)
      (simp_all add: vehicle_generator_def expovariate_def Let_def metrics_observer_def
        env_process_def repair_return_def container_put_def timeout_def
        counters_fields [OF trigger_put_counters])
next
  case ContainerGet
  then show ?thesis
    by (simp add: vehicle_served_def env_process_def counters_fields [OF trigger_put_counters])
next
  case ContainerPut
  then show ?thesis
    by (simp add: repair_end_def counters_fields [OF trigger_get_counters])
qed simp_all

lemma step_series:
  assumes "step cfg s = (r, s')"
  shows "timeseries s' = timeseries s
         \<or> (\<exists>snap. timeseries s' = timeseries s @ [snap] \<and> taken_in snap s')"
proof (cases "queue s")
  case Nil
  then show ?thesis using assms by (simp add: step_empty)
next
  case (Cons x q)
  let ?s = "s\<lparr>now := time_of x, queue := q\<rparr>"
  have s': "s' = callbacks cfg (ev_of x) ?s"
    using step_popped [OF Cons, of cfg] assms by simp
  show ?thesis
  proof (cases "ev_of x = Initialize MetricsObserver \<or> ev_of x = Timeout MetricsObserver")
    case True
    then have "timeseries s' = timeseries s @ [take_snapshot ?s]"
      unfolding s' by (simp add: callbacks_series)
    moreover have "taken_in (take_snapshot ?s) s'"
      unfolding s' using True by (rule observer_fields)
    ultimately show ?thesis by blast
  next
    case False
    then show ?thesis unfolding s' by (simp add: callbacks_series)
  qed
qed

lemma step_counters_mono:
  assumes "step cfg s = (r, s')"
  shows "total_arrivals s \<le> total_arrivals s'" and "served s \<le> served s'"
proof -
  have "total_arrivals s \<le> total_arrivals s' \<and> served s \<le> served s'"
  proof (cases "queue s")
    case Nil
    then show ?thesis using assms by (simp add: step_empty)
  next
    case (Cons x q)
    have "s' = callbacks cfg (ev_of x) (s\<lparr>now := time_of x, queue := q\<rparr>)"
      using step_popped [OF Cons, of cfg] assms by simp
    then show ?thesis
      using callbacks_counters_mono [of "s\<lparr>now := time_of x, queue := q\<rparr>" cfg "ev_of x"]
      by simp
  qed
  then show "total_arrivals s \<le> total_arrivals s'" and "served s \<le> served s'"
    by simp_all
qed

lemma step_clock:
  assumes "timely T s" and "step cfg s = (r, s')"
  shows "now s \<le> now s'"
proof (cases "queue s")
  case Nil
  then show ?thesis using assms by (simp add: step_empty)
next
  case (Cons x q)
  have "s' = callbacks cfg (ev_of x) (s\<lparr>now := time_of x, queue := q\<rparr>)"
    using step_popped [OF Cons, of cfg] assms by simp
  then have "now s' = time_of x"
    using callbacks_extends [of "s\<lparr>now := time_of x, queue := q\<rparr>" cfg "ev_of x"]
    by (simp add: extends_def)
  then show ?thesis using assms(1) Cons by (simp add: timely_def)
qed

lemma step_capacity:
  assumes "step cfg s = (r, s')"
  shows "capacity s' = capacity s"
proof (cases "queue s")
  case Nil
  then show ?thesis using assms by (simp add: step_empty)
next
  case (Cons x q)
  have "s' = callbacks cfg (ev_of x) (s\<lparr>now := time_of x, queue := q\<rparr>)"
    using step_popped [OF Cons, of cfg] assms by simp
  then show ?thesis
    using callbacks_extends [of "s\<lparr>now := time_of x, queue := q\<rparr>" cfg "ev_of x"]
    by (simp add: extends_def)
qed

lemma accounting_served: "accounting s \<Longrightarrow> served s \<le> total_arrivals s"
  using pending_nonneg [of ContainerGet s] by (simp add: accounting_def demand_def)

lemma step_monotone_series:
  assumes "monotone_series s" and "timely T s" and "accounting s'" and "step cfg s = (r, s')"
  shows "monotone_series s'"
proof -
  note mono = step_counters_mono [OF assms(4)] step_clock [OF assms(2,4)]
  have old: "\<forall>x\<in>set (timeseries s).
      time x \<le> now s' \<and> snap_total_arrivals x \<le> total_arrivals s'
      \<and> snap_served x \<le> served s' \<and> snap_served x \<le> snap_total_arrivals x"
    using assms(1) mono by (fastforce simp: monotone_series_def)
  from step_series [OF assms(4)] show ?thesis
  proof
    assume "timeseries s' = timeseries s"
    then show ?thesis using assms(1) old by (simp add: monotone_series_def)
  next
    assume "\<exists>snap. timeseries s' = timeseries s @ [snap] \<and> taken_in snap s'"
    then obtain snap where ts: "timeseries s' = timeseries s @ [snap]" and tk: "taken_in snap s'"
      by blast
    have "snap_served snap \<le> snap_total_arrivals snap"
      using tk accounting_served [OF assms(3)] by (simp add: taken_in_def)
    then show ?thesis
      using assms(1) old tk
      by (auto simp: monotone_series_def ts taken_in_def sorted_append)
  qed
qed

lemma step_sound:
  assumes "sound T n0 s" and "step cfg s = (None, s')"
  shows "sound T n0 s'"
proof -
  have a: "accounting s'"
    using step_accounting [OF _ assms(2)] assms(1) by (simp add: sound_def)
  moreover have "running T s'"
    using step_running [OF _ assms(2)] assms(1) by (simp add: sound_def)
  moreover have "monotone_series s'"
  proof -
    have "monotone_series s" and "timely T s"
      using assms(1) by (simp_all add: sound_def running_def)
    then show ?thesis using a assms(2) by (rule step_monotone_series)
  qed
  moreover have "capacity s' = n0"
    using step_capacity [OF assms(2)] assms(1) by (simp add: sound_def)
  ultimately show ?thesis by (simp add: sound_def)
qed

lemma start_state_eq:
  assumes "start_state initial_supply = Inr s0"
  shows "s0 = env_process MetricsObserver (env_process VehicleGenerator
           (environment\<lparr>level := initial_supply, capacity := initial_supply,
              get_queue := [], put_queue := []\<rparr>))"
  using assms by (auto simp: start_state_def container_init_def split: if_splits)

lemma run_state_start:
  assumes "run_state cfg n0 T n = Some s"
  obtains s0 where "start_state n0 = Inr s0" and "0 < T"
    and "steps cfg n (schedule Until URGENT T s0) = Some s"
proof -
  obtain s0 where s0: "start_state n0 = Inr s0"
    using assms by (auto simp: run_state_def split: sum.splits)
  have z: "now s0 = 0"
    using s0 by (auto simp: start_state_def container_init_def env_process_def environment_def
        split: if_splits)
  then have "0 < T" and "steps cfg n (schedule Until URGENT T s0) = Some s"
    using assms s0 by (auto simp: run_state_def split: if_splits)
  then show ?thesis using that s0 by blast
qed

lemma run_state_sound:
  assumes "run_state cfg n0 T n = Some s"
  shows "sound T n0 s"
proof -
  obtain s0 where s0: "start_state n0 = Inr s0" and T: "0 < T"
    and st: "steps cfg n (schedule Until URGENT T s0) = Some s"
    using assms by (rule run_state_start)
  have "timeseries s0 = []"
    using start_state_eq [OF s0] by (simp add: env_process_def environment_def)
  then have "sound T n0 (schedule Until URGENT T s0)"
    using start_state_books [OF s0 T]
    by (simp add: sound_def monotone_series_def)
  with st show ?thesis
    by (rule steps_invariant) (rule step_sound)
qed

lemma steps_Suc:
  "steps cfg (Suc n) s = Some s' \<longleftrightarrow> (\<exists>s1. steps cfg n s = Some s1 \<and> step cfg s1 = (None, s'))"
proof (induction n arbitrary: s)
  case 0
  show ?case by (cases "step cfg s") (auto split: option.splits)
next
  case (Suc n)
  obtain r s1 where st: "step cfg s = (r, s1)" by (cases "step cfg s") auto
  show ?case
  proof (cases r)
    case None
    have "steps cfg (Suc (Suc n)) s = steps cfg (Suc n) s1"
      using st None by simp
    moreover have "steps cfg (Suc n) s = steps cfg n s1"
      using st None by simp
    ultimately show ?thesis using Suc.IH [of s1] by simp
  next
    case (Some e)
    then show ?thesis using st by simp
  qed
qed

lemma run_state_Suc:
  "run_state cfg n0 T (Suc n) = Some s' \<longleftrightarrow>
     (\<exists>s. run_state cfg n0 T n = Some s \<and> step cfg s = (None, s'))"
  unfolding run_state_def using steps_Suc
  by (auto split: sum.splits if_splits)

lemma run_state_snapshots:
  assumes "run_state cfg n0 T n = Some s" and "snap \<in> set (timeseries s)"
  shows "\<exists>k s'. run_state cfg n0 T k = Some s' \<and> taken_in snap s'"
  using assms
proof (induction n arbitrary: s)
  case 0
  then obtain s0 where s0: "start_state n0 = Inr s0"
    and "steps cfg 0 (schedule Until URGENT T s0) = Some s"
    by (auto elim: run_state_start)
  then have "timeseries s = timeseries s0"
    by auto
  also have "\<dots> = []"
    using start_state_eq [OF s0] by (simp add: env_process_def environment_def)
  finally have "timeseries s = []" .
  then show ?case using "0.prems" by simp
next
  case (Suc n)
  then obtain s1 where s1: "run_state cfg n0 T n = Some s1" and st: "step cfg s1 = (None, s)"
    using run_state_Suc by blast
  from step_series [OF st] show ?case
  proof
    assume "timeseries s = timeseries s1"
    then show ?thesis using Suc.IH [OF s1] Suc.prems(2) by simp
  next
    assume "\<exists>x. timeseries s = timeseries s1 @ [x] \<and> taken_in x s"
    then obtain x where x: "timeseries s = timeseries s1 @ [x]" "taken_in x s" by blast
    show ?thesis
    proof (cases "snap = x")
      case True
      then show ?thesis using x(2) Suc.prems(1) by blast
    next
      case False
      then have "snap \<in> set (timeseries s1)" using Suc.prems(2) x(1) by simp
      then show ?thesis using Suc.IH [OF s1] by simp
    qed
  qed
qed

lemma run_simulation_stop:
  assumes "run_simulation draws fuel n0 rate cycle T interval = Some (Inr (fm, ts))"
  obtains n s s' where "run_state (make_config draws rate cycle interval) n0 T n = Some s"
    and "step (make_config draws rate cycle interval) s = (Some StopSimulation, s')"
    and "fm = compute_final_metrics s'" and "ts = timeseries s'"
proof -
  let ?cfg = "make_config draws rate cycle interval"
  obtain s0 where s0: "start_state n0 = Inr s0"
    using assms by (auto simp: run_simulation_def split: sum.splits)
  have z: "now s0 = 0"
    using s0 by (auto simp: start_state_def container_init_def env_process_def environment_def
        split: if_splits)
  obtain s' where run: "env_run ?cfg fuel T s0 = Some (None, s')"
    and res: "fm = compute_final_metrics s'" "ts = timeseries s'"
    using assms s0 by (auto simp: run_simulation_def split: option.splits)
  have T: "\<not> T \<le> now s0"
    using run by (auto simp: env_run_def)
  then have "run_loop ?cfg fuel (schedule Until URGENT (T - now s0) s0) = Some (StopSimulation, s')"
    using run by (auto simp: env_run_def split: option.splits exn.splits)
  then obtain n s where "steps ?cfg n (schedule Until URGENT (T - now s0) s0) = Some s"
    and "step ?cfg s = (Some StopSimulation, s')"
    using run_loop_steps by blast
  then have "run_state ?cfg n0 T n = Some s"
    using s0 T by (simp add: run_state_def)
  then show ?thesis
    using that \<open>step ?cfg s = (Some StopSimulation, s')\<close> res by blast
qed

subsection \<open>Completed calls\<close>

lemma step_stop_state:
  assumes "running T s" and "step cfg s = (Some StopSimulation, s')"
  shows "timeseries s' = timeseries s"
proof (cases "queue s")
  case Nil
  then show ?thesis using assms by (simp add: step_empty)
next
  case (Cons x q)
  have "raises (ev_of x) \<subseteq> {ValueError, ZeroDivisionError}"
    using assms(1) Cons by (simp add: running_def timely_def)
  moreover have "fst (step cfg s) = Some StopSimulation" using assms(2) by simp
  ultimately have u: "ev_of x = Until"
    using step_signal [OF Cons, of cfg]
    by (cases "ev_of x" rule: raises.cases) (auto split: if_splits)
  have "s' = s\<lparr>now := time_of x, queue := q\<rparr>"
    using step_popped [OF Cons, of cfg] assms(2) u by simp
  then show ?thesis by simp
qed

lemma run_simulation_final:
  assumes "run_simulation draws fuel n0 rate cycle T interval = Some (Inr (fm, ts))"
  obtains s' where "fm = compute_final_metrics s'" and "ts = timeseries s'"
    and "accounting s'" and "stopped T s'" and "monotone_series s'" and "capacity s' = n0"
    and "\<forall>snap\<in>set ts. \<exists>k s. run_state (make_config draws rate cycle interval) n0 T k = Some s
           \<and> taken_in snap s"
proof -
  let ?cfg = "make_config draws rate cycle interval"
  obtain n s s' where rs: "run_state ?cfg n0 T n = Some s"
    and st: "step ?cfg s = (Some StopSimulation, s')"
    and res: "fm = compute_final_metrics s'" "ts = timeseries s'"
    using assms by (rule run_simulation_stop)
  have snd: "sound T n0 s" using rs by (rule run_state_sound)
  then have r: "running T s" and a: "accounting s" and m: "monotone_series s"
    and c: "capacity s = n0"
    by (simp_all add: sound_def)
  have a': "accounting s'" using a st by (rule step_accounting) simp
  have "stopped T s'" using r st by (rule step_stopped)
  moreover have "monotone_series s'"
    using m r a' st by (auto intro: step_monotone_series simp: running_def)
  moreover have "capacity s' = n0" using step_capacity [OF st] c by simp
  moreover have "ts = timeseries s" using step_stop_state [OF r st] res by simp
  then have "\<forall>snap\<in>set ts. \<exists>k s. run_state ?cfg n0 T k = Some s \<and> taken_in snap s"
    using run_state_snapshots [OF rs] by simp
  ultimately show ?thesis using that res a' by blast
qed

lemma env_run_stop:
  assumes "start_state n0 = Inr s0" and "env_run cfg fuel T s0 = Some (None, s')"
  obtains n s where "run_state cfg n0 T n = Some s" and "step cfg s = (Some StopSimulation, s')"
proof -
  have T: "\<not> T \<le> now s0"
    using assms(2) by (auto simp: env_run_def)
  then have "run_loop cfg fuel (schedule Until URGENT (T - now s0) s0) = Some (StopSimulation, s')"
    using assms(2) by (auto simp: env_run_def split: option.splits exn.splits)
  then obtain n s where "steps cfg n (schedule Until URGENT (T - now s0) s0) = Some s"
    and st: "step cfg s = (Some StopSimulation, s')"
    using run_loop_steps by blast
  then have "run_state cfg n0 T n = Some s"
    using assms(1) T by (simp add: run_state_def)
  then show ?thesis using that st by blast
qed

subsection \<open>The result does not depend on the fuel\<close>

lemma run_loop_more_fuel:
  assumes "run_loop cfg fuel s = Some r" and "fuel \<le> fuel'"
  shows "run_loop cfg fuel' s = Some r"
  using assms
proof (induction fuel arbitrary: s fuel')
  case 0
  then show ?case by simp
next
  case (Suc fuel)
  then obtain m where m: "fuel' = Suc m" and le: "fuel \<le> m"
    by (cases fuel') auto
  obtain e s1 where st: "step cfg s = (e, s1)" by (cases "step cfg s") auto
  show ?case
  proof (cases e)
    case None
    then have "run_loop cfg fuel s1 = Some r" using Suc.prems(1) st by simp
    then have "run_loop cfg m s1 = Some r" using le by (rule Suc.IH)
    then show ?thesis using st None m by simp
  next
    case (Some x)
    then show ?thesis using Suc.prems(1) st m by simp
  qed
qed

lemma env_run_more_fuel:
  assumes "env_run cfg fuel T s = Some r" and "fuel \<le> fuel'"
  shows "env_run cfg fuel' T s = Some r"
proof (cases "T \<le> now s")
  case True
  then show ?thesis using assms by (simp add: env_run_def)
next
  case False
  then obtain r' where "run_loop cfg fuel (schedule Until URGENT (T - now s) s) = Some r'"
    using assms(1) by (auto simp: env_run_def split: option.splits)
  then have "run_loop cfg fuel' (schedule Until URGENT (T - now s) s)
      = run_loop cfg fuel (schedule Until URGENT (T - now s) s)"
    using run_loop_more_fuel [OF _ assms(2)] by simp
  then show ?thesis using assms(1) False by (simp add: env_run_def)
qed

lemma run_simulation_more_fuel:
  assumes "run_simulation draws fuel n0 rate cycle T interval = Some r" and "fuel \<le> fuel'"
  shows "run_simulation draws fuel' n0 rate cycle T interval = Some r"
proof (cases "start_state n0")
  case (Inl e)
  then show ?thesis using assms by (simp add: run_simulation_def)
next
  case (Inr s0)
  then obtain r' where "env_run (make_config draws rate cycle interval) fuel T s0 = Some r'"
    using assms(1) by (auto simp: run_simulation_def split: option.splits)
  then have "env_run (make_config draws rate cycle interval) fuel' T s0
      = env_run (make_config draws rate cycle interval) fuel T s0"
    using env_run_more_fuel [OF _ assms(2)] by simp
  then show ?thesis using assms(1) Inr by (simp add: run_simulation_def)
qed

subsection \<open>Two calls worked out\<close>

lemma example_run:
  "run_simulation (\<lambda>k. 1 / 2) 40 1 1 1 2 (Some 1) =
     Some (Inr (\<lparr>demand_satisfaction_rate = 2 / 3, fm_total_arrivals = 3, fm_served = 2,
                  fm_backlog = 1, fm_available_supply = 0, fm_in_repair = 1\<rparr>,
                [\<lparr>time = 0, available_supply = 1, backlog = 0, snap_in_repair = 0,
                   snap_total_arrivals = 0, snap_served = 0, satisfaction_rate = 0\<rparr>,
                 \<lparr>time = 1, available_supply = 0, backlog = 0, snap_in_repair = 1,
                   snap_total_arrivals = 1, snap_served = 1, satisfaction_rate = 1\<rparr>]))"
  by code_simp

lemma coincidence_run:
  "run_simulation (\<lambda>k. if k = 0 then 1 else 100) 20 2 1 5 3 (Some 1) =
     Some (Inr (\<lparr>demand_satisfaction_rate = 1, fm_total_arrivals = 1, fm_served = 1,
                  fm_backlog = 0, fm_available_supply = 1, fm_in_repair = 1\<rparr>,
                [\<lparr>time = 0, available_supply = 2, backlog = 0, snap_in_repair = 0,
                   snap_total_arrivals = 0, snap_served = 0, satisfaction_rate = 0\<rparr>,
                 \<lparr>time = 1, available_supply = 1, backlog = 0, snap_in_repair = 0,
                   snap_total_arrivals = 1, snap_served = 0, satisfaction_rate = 0\<rparr>,
                 \<lparr>time = 2, available_supply = 1, backlog = 0, snap_in_repair = 1,
                   snap_total_arrivals = 1, snap_served = 1, satisfaction_rate = 1\<rparr>]))"
  by code_simp

lemma example_run_again:
  "run_simulation (\<lambda>k. 1 / 2) 60 1 1 1 2 (Some 1) \<noteq> None"
  by code_simp

subsection \<open>The observer and its samples\<close>

lemma filter_insort_key_new:
  "filter P xs = [] \<Longrightarrow> P x \<Longrightarrow> filter P (insort_key f x xs) = [x]"
  by (induction xs) (auto split: if_splits)

lemma awaited_schedule [simp]:
  "ev \<noteq> Initialize p \<Longrightarrow> ev \<noteq> Timeout p \<Longrightarrow> awaited p (schedule ev pr d s) = awaited p s"
  by (simp add: awaited_def schedule_def filter_insort_triv)

lemma awaited_timeout:
  "awaited p s = [] \<Longrightarrow> awaited p (schedule (Timeout p) pr d s) = [now s + d]"
  by (simp add: awaited_def schedule_def filter_insort_key_new)

lemma awaited_update [simp]:
  "awaited p (s\<lparr>now := a\<rparr>) = awaited p s"
  "awaited p (s\<lparr>level := b\<rparr>) = awaited p s"
  "awaited p (s\<lparr>get_queue := c\<rparr>) = awaited p s"
  "awaited p (s\<lparr>put_queue := d\<rparr>) = awaited p s"
  "awaited p (s\<lparr>total_arrivals := e\<rparr>) = awaited p s"
  "awaited p (s\<lparr>served := f\<rparr>) = awaited p s"
  "awaited p (s\<lparr>in_repair := g\<rparr>) = awaited p s"
  "awaited p (s\<lparr>timeseries := h\<rparr>) = awaited p s"
  "awaited p (s\<lparr>rng := k\<rparr>) = awaited p s"
  by (simp_all add: awaited_def)

lemma awaited_pop:
  "queue s = x # q \<Longrightarrow>
   awaited p (s\<lparr>now := t, queue := q\<rparr>) =
     (if ev_of x = Initialize p \<or> ev_of x = Timeout p then tl (awaited p s) else awaited p s)"
  by (simp add: awaited_def)

lemma awaited_head:
  "queue s = x # q \<Longrightarrow> ev_of x = Initialize p \<or> ev_of x = Timeout p \<Longrightarrow>
   hd (awaited p s) = time_of x"
  by (auto simp: awaited_def)

lemma trigger_get_awaited: "awaited p (trigger_get s) = awaited p s"
  by (rule trigger_get_rule [where I = "\<lambda>s'. awaited p s' = awaited p s"]) simp_all

lemma trigger_put_awaited: "awaited p (trigger_put s) = awaited p s"
  by (rule trigger_put_rule [where I = "\<lambda>s'. awaited p s' = awaited p s"]) simp_all

lemma awaited_resume:
  "awaited p (resume pr r) = awaited p (snd r)"
  by (cases "(pr, r)" rule: resume.cases) simp_all

lemma awaited_other_timeout:
  "pr \<noteq> p \<Longrightarrow> awaited p (resume pr (timeout pr d s)) = awaited p s"
  by (simp add: timeout_def)

lemma callbacks_awaited:
  assumes "ev \<noteq> Initialize p" and "ev \<noteq> Timeout p"
    and "p = VehicleGenerator \<or> p = MetricsObserver"
  shows "awaited p (callbacks cfg ev s) = awaited p s"
proof (cases ev)
  case (Initialize pr)
  then show ?thesis using assms
    by (cases pr)
      (auto simp: vehicle_generator_def expovariate_def Let_def metrics_observer_def
        vehicle_arrive_def container_get_def repair_begin_def timeout_def
        trigger_get_awaited)
next
  case (Timeout pr)
  then show ?thesis using assms
    by (cases pr)
      (auto simp: vehicle_generator_def expovariate_def Let_def metrics_observer_def
        env_process_def repair_return_def container_put_def timeout_def
        trigger_put_awaited)
next
  case ContainerGet
  then show ?thesis using assms
    by (auto simp: vehicle_served_def env_process_def trigger_put_awaited)
next
  case ContainerPut
  then show ?thesis using assms
    by (auto simp: repair_end_def trigger_get_awaited)
next
  case (Process pr r)
  then show ?thesis by simp
next
  case Until
  then show ?thesis by simp
qed

lemma observer_awaited:
  assumes "ev = Initialize MetricsObserver \<or> ev = Timeout MetricsObserver"
    and "awaited MetricsObserver s = []" and "0 \<le> record_interval cfg"
  shows "awaited MetricsObserver (callbacks cfg ev s) = [now s + record_interval cfg]"
  using assms by (auto simp: metrics_observer_def timeout_def awaited_timeout)

lemma sample_time_Suc: "sample_time cfg (Suc k) = sample_time cfg k + record_interval cfg"
  by (simp add: sample_time_def algebra_simps)

lemma callbacks_sampling:
  assumes "sampling cfg s" and "queue s = x # q" and "0 \<le> record_interval cfg"
  shows "sampling cfg (callbacks cfg (ev_of x) (s\<lparr>now := time_of x, queue := q\<rparr>))"
proof (cases "ev_of x = Initialize MetricsObserver \<or> ev_of x = Timeout MetricsObserver")
  case True
  let ?s = "s\<lparr>now := time_of x, queue := q\<rparr>"
  let ?k = "length (timeseries s)"
  have aw: "awaited MetricsObserver s = [sample_time cfg ?k]"
    and ts: "map time (timeseries s) = map (sample_time cfg) [0..<?k]"
    using assms(1) by (simp_all add: sampling_def)
  have t: "time_of x = sample_time cfg ?k"
    using awaited_head [OF assms(2) True] aw by simp
  have "awaited MetricsObserver ?s = []"
    using awaited_pop [OF assms(2), of MetricsObserver "time_of x"] True aw by simp
  then have "awaited MetricsObserver (callbacks cfg (ev_of x) ?s)
      = [sample_time cfg (Suc ?k)]"
    using observer_awaited [OF True _ assms(3), of ?s] t by (simp add: sample_time_Suc)
  moreover have "timeseries (callbacks cfg (ev_of x) ?s) = timeseries s @ [take_snapshot ?s]"
    using True by (simp add: callbacks_series)
  moreover have "time (take_snapshot ?s) = sample_time cfg ?k"
    using t by (simp add: take_snapshot_def)
  ultimately show ?thesis using ts by (simp add: sampling_def)
next
  case False
  let ?s = "s\<lparr>now := time_of x, queue := q\<rparr>"
  have "awaited MetricsObserver (callbacks cfg (ev_of x) ?s) = awaited MetricsObserver ?s"
    using False by (simp add: callbacks_awaited)
  also have "\<dots> = awaited MetricsObserver s"
    using awaited_pop [OF assms(2), of MetricsObserver "time_of x"] False by simp
  finally show ?thesis using assms(1) False by (simp add: sampling_def callbacks_series)
qed

lemma step_sampling:
  assumes "sampling cfg s" and "0 \<le> record_interval cfg" and "step cfg s = (r, s')"
  shows "sampling cfg s'"
proof (cases "queue s")
  case Nil
  then show ?thesis using assms by (simp add: step_empty)
next
  case (Cons x q)
  have "s' = callbacks cfg (ev_of x) (s\<lparr>now := time_of x, queue := q\<rparr>)"
    using step_popped [OF Cons, of cfg] assms(3) by simp
  then show ?thesis using callbacks_sampling [OF assms(1) Cons assms(2)] by simp
qed

lemma start_state_ok:
  assumes "1 \<le> n0"
  obtains s0 where "start_state n0 = Inr s0"
  using assms by (auto simp: start_state_def container_init_def)


lemma start_queue:
  assumes "start_state n0 = Inr s0" and "0 < T"
  shows "queue (schedule Until URGENT T s0) =
           [(0, URGENT, 0, Initialize VehicleGenerator),
            (0, URGENT, 1, Initialize MetricsObserver), (T, URGENT, 2, Until)]"
    and "eid (schedule Until URGENT T s0) = 3"
    and "counters (schedule Until URGENT T s0) = (0, 0, 0, [], 0)"
    and "level (schedule Until URGENT T s0) = n0"
    and "get_queue (schedule Until URGENT T s0) = []"
  using assms(2) unfolding start_state_eq [OF assms(1)]
  by (simp_all add: env_process_def environment_def schedule_def counters_def)

lemma start_sampling:
  assumes "start_state n0 = Inr s0" and "0 < T"
  shows "sampling cfg (schedule Until URGENT T s0)"
    and "arriving cfg (schedule Until URGENT T s0)"
  using start_queue [OF assms]
  by (simp_all add: sampling_def arriving_def awaited_def clean_def sample_time_def
      arrival_def counters_def)

lemma run_state_sampling:
  assumes "run_state cfg n0 T n = Some s" and "0 \<le> record_interval cfg"
  shows "sampling cfg s"
proof -
  obtain s0 where s0: "start_state n0 = Inr s0" and T: "0 < T"
    and st: "steps cfg n (schedule Until URGENT T s0) = Some s"
    using assms(1) by (rule run_state_start)
  show ?thesis
    using st start_sampling(1) [OF s0 T]
  proof (rule steps_invariant)
    fix s s' assume a: "sampling cfg s" and b: "step cfg s = (None, s')"
    show "sampling cfg s'" using a assms(2) b by (rule step_sampling)
  qed
qed

subsection \<open>The first two steps of the loop\<close>

lemma generator_start:
  assumes "queue s = (0, URGENT, 1, Initialize MetricsObserver) # q" and "eid s = 3"
    and "now s = 0"
  shows "\<exists>q'. queue (callbacks cfg (Initialize VehicleGenerator) s)
            = (0, URGENT, 1, Initialize MetricsObserver) # q'"
  using assms
  by (simp add: vehicle_generator_def expovariate_def Let_def timeout_def schedule_def
      URGENT_def NORMAL_def)

lemma generator_fields:
  assumes "ev = Initialize VehicleGenerator \<or> ev = Timeout VehicleGenerator"
  shows "timeseries (callbacks cfg ev s) = timeseries s"
    and "total_arrivals (callbacks cfg ev s) = total_arrivals s"
    and "served (callbacks cfg ev s) = served s"
    and "in_repair (callbacks cfg ev s) = in_repair s"
    and "level (callbacks cfg ev s) = level s"
    and "get_queue (callbacks cfg ev s) = get_queue s"
    and "now (callbacks cfg ev s) = now s"
    and "rng (callbacks cfg ev s) = rng s + 1"
  using assms
  by (auto simp: vehicle_generator_def expovariate_def Let_def timeout_def env_process_def)

lemma first_steps:
  assumes "1 \<le> n0" and "0 < T"
  obtains s1 s2 s3 where "run_state cfg n0 T 0 = Some s1"
    and "step cfg s1 = (None, s2)" and "step cfg s2 = (None, s3)"
    and "timeseries s3 = [first_snapshot n0]"
    and "queue s1 = [(0, URGENT, 0, Initialize VehicleGenerator),
           (0, URGENT, 1, Initialize MetricsObserver), (T, URGENT, 2, Until)]"
    and "eid s1 = 3" and "rng s1 = 0"
    and "s2 = callbacks cfg (Initialize VehicleGenerator) (s1\<lparr>now := 0, queue := tl (queue s1)\<rparr>)"
    and "s3 = callbacks cfg (Initialize MetricsObserver) (s2\<lparr>now := 0, queue := tl (queue s2)\<rparr>)"
proof -
  obtain s0 where s0: "start_state n0 = Inr s0"
    using assms(1) by (rule start_state_ok)
  have z: "now s0 = 0"
    using start_state_books(4) [OF s0 assms(2)] .
  define s1 where "s1 = schedule Until URGENT T s0"
  note start = start_queue [OF s0 assms(2), folded s1_def]
  have rs: "run_state cfg n0 T 0 = Some s1"
    using s0 z assms(2) by (simp add: run_state_def s1_def)
  let ?q1 = "[(0, URGENT, 1, Initialize MetricsObserver), (T, URGENT, 2, Until)]"
  let ?p1 = "s1\<lparr>now := 0, queue := ?q1\<rparr>"
  obtain s2 where st1: "step cfg s1 = (None, s2)"
    using step_signal [of s1 _ _ cfg] start(1) by (cases "step cfg s1") auto
  have s2: "s2 = callbacks cfg (Initialize VehicleGenerator) ?p1"
    using step_popped [of s1 _ _ cfg] start(1) st1 by simp
  obtain q where q2: "queue s2 = (0, URGENT, 1, Initialize MetricsObserver) # q"
    using generator_start [of ?p1 "[(T, URGENT, 2, Until)]" cfg] start(2)
    unfolding s2 by auto
  have f2: "timeseries s2 = []" "total_arrivals s2 = 0" "served s2 = 0" "in_repair s2 = 0"
    "level s2 = n0" "get_queue s2 = []"
    unfolding s2
    using start(3,4,5)
      generator_fields [where ev = "Initialize VehicleGenerator" and cfg = cfg and s = ?p1]
    by (simp_all add: counters_def)
  obtain s3 where st2: "step cfg s2 = (None, s3)"
    using step_signal [of s2 _ _ cfg] q2 by (cases "step cfg s2") auto
  have s3: "s3 = callbacks cfg (Initialize MetricsObserver) (s2\<lparr>now := 0, queue := q\<rparr>)"
    using step_popped [of s2 _ _ cfg] q2 st2 by simp
  have "timeseries s3 = timeseries s2 @ [take_snapshot (s2\<lparr>now := 0, queue := q\<rparr>)]"
    unfolding s3 by (subst callbacks_series) simp
  then have ts: "timeseries s3 = [first_snapshot n0]"
    by (simp add: f2 take_snapshot_def first_snapshot_def)
  have r0: "rng s1 = 0" using start(3) by (simp add: counters_def)
  have tl1: "tl (queue s1) = ?q1" unfolding start(1) by simp
  have tl2: "tl (queue s2) = q" unfolding q2 by simp
  have s2': "s2 = callbacks cfg (Initialize VehicleGenerator)
      (s1\<lparr>now := 0, queue := tl (queue s1)\<rparr>)"
    unfolding tl1 by (rule s2)
  have s3': "s3 = callbacks cfg (Initialize MetricsObserver)
      (s2\<lparr>now := 0, queue := tl (queue s2)\<rparr>)"
    unfolding tl2 by (rule s3)
  show ?thesis
    by (rule that [OF rs st1 st2 ts start(1) start(2) r0 s2' s3'])
qed



subsection \<open>What the callbacks leave of the work\<close>

lemma sum_list_insort_key:
  "sum_list (map f (insort_key k x xs)) = f x + sum_list (map f xs)"
  for f :: "'a \<Rightarrow> nat"
  by (induction xs) auto

lemma potential_schedule [simp]:
  "potential N K (schedule ev p d s) = potential N K s + weight ev"
  by (simp add: potential_def schedule_def sum_list_insort_key)

lemma potential_update [simp]:
  "potential N K (s\<lparr>level := b\<rparr>) = potential N K s"
  "potential N K (s\<lparr>total_arrivals := e\<rparr>) = potential N K s"
  "potential N K (s\<lparr>served := f\<rparr>) = potential N K s"
  "potential N K (s\<lparr>in_repair := g\<rparr>) = potential N K s"
  "potential N K (s\<lparr>now := a\<rparr>) = potential N K s"
  by (simp_all add: potential_def)

lemma potential_get_queue:
  "potential N K (s\<lparr>get_queue := c\<rparr>) + 6 * length (get_queue s)
     = potential N K s + 6 * length c"
  by (simp add: potential_def)

lemma potential_put_queue:
  "potential N K (s\<lparr>put_queue := c\<rparr>) + 2 * length (put_queue s)
     = potential N K s + 2 * length c"
  by (simp add: potential_def)

lemma potential_granted:
  "get_queue s = a # rest \<Longrightarrow>
     potential N K (s\<lparr>level := b, get_queue := rest\<rparr>) + 6 = potential N K s"
  "put_queue s = a # rest \<Longrightarrow>
     potential N K (s\<lparr>level := b, put_queue := rest\<rparr>) + 2 = potential N K s"
  by (simp_all add: potential_def)

lemma trigger_get_potential: "potential N K (trigger_get s) = potential N K s"
proof (rule trigger_get_rule [where I = "\<lambda>s'. potential N K s' = potential N K s"])
  show "potential N K s = potential N K s" by simp
next
  fix s' :: state and a rest
  assume eq: "potential N K s' = potential N K s" and q: "get_queue s' = a # rest"
  show "potential N K (schedule ContainerGet NORMAL 0
        (s'\<lparr>level := level s' - a, get_queue := rest\<rparr>)) = potential N K s"
    using eq potential_granted(1) [OF q, of N K "level s' - a"] by simp
qed

lemma trigger_put_potential: "potential N K (trigger_put s) = potential N K s"
proof (rule trigger_put_rule [where I = "\<lambda>s'. potential N K s' = potential N K s"])
  show "potential N K s = potential N K s" by simp
next
  fix s' :: state and a rest
  assume eq: "potential N K s' = potential N K s" and q: "put_queue s' = a # rest"
  show "potential N K (schedule ContainerPut NORMAL 0
        (s'\<lparr>level := level s' + a, put_queue := rest\<rparr>)) = potential N K s"
    using eq potential_granted(2) [OF q, of N K "level s' + a"] by simp
qed

lemma potential_pop:
  assumes "queue s = x # q"
  shows "potential N K (s\<lparr>now := t, queue := q\<rparr>) + weight (ev_of x) = potential N K s"
  using assms by (simp add: potential_def)

lemma callbacks_potential:
  assumes "ev \<noteq> Until"
    and "ev = Initialize VehicleGenerator \<or> ev = Timeout VehicleGenerator \<longrightarrow> rng s < N"
    and "ev = Initialize MetricsObserver \<or> ev = Timeout MetricsObserver
           \<longrightarrow> length (timeseries s) < K"
  shows "potential N K (callbacks cfg ev s) < potential N K s + weight ev"
proof (cases ev)
  case (Initialize pr)
  show ?thesis
  proof (cases pr)
    case VehicleGenerator
    then show ?thesis using Initialize assms(2)
      by (simp add: vehicle_generator_def expovariate_def Let_def timeout_def potential_def
          schedule_def sum_list_insort_key)
  next
    case MetricsObserver
    then show ?thesis using Initialize assms(3)
      by (simp add: metrics_observer_def timeout_def potential_def
          schedule_def sum_list_insort_key)
  next
    case Vehicle
    have "potential N K (s\<lparr>total_arrivals := total_arrivals s + 1,
        get_queue := get_queue s @ [1]\<rparr>) = potential N K s + 6"
      by (simp add: potential_def)
    then show ?thesis using Initialize Vehicle
      by (simp add: vehicle_arrive_def container_get_def trigger_get_potential)
  next
    case RepairProcess
    then show ?thesis using Initialize
      by (simp add: repair_begin_def timeout_def)
  qed
next
  case (Timeout pr)
  show ?thesis
  proof (cases pr)
    case VehicleGenerator
    then show ?thesis using Timeout assms(2)
      by (simp add: vehicle_generator_def expovariate_def Let_def timeout_def potential_def
          schedule_def sum_list_insort_key env_process_def)
  next
    case MetricsObserver
    then show ?thesis using Timeout assms(3)
      by (simp add: metrics_observer_def timeout_def potential_def
          schedule_def sum_list_insort_key)
  next
    case Vehicle
    then show ?thesis using Timeout by simp
  next
    case RepairProcess
    have "potential N K (s\<lparr>put_queue := put_queue s @ [1]\<rparr>) = potential N K s + 2"
      by (simp add: potential_def)
    then show ?thesis using Timeout RepairProcess
      by (simp add: repair_return_def container_put_def trigger_put_potential)
  qed
next
  case ContainerGet
  then show ?thesis
    by (simp add: vehicle_served_def env_process_def trigger_put_potential)
next
  case ContainerPut
  then show ?thesis
    by (simp add: repair_end_def trigger_get_potential)
next
  case (Process pr r)
  then show ?thesis by simp
next
  case Until
  then show ?thesis using assms(1) by simp
qed

subsection \<open>Runs without a failure\<close>

lemma clean_schedule: "clean s \<Longrightarrow> raises ev = {} \<Longrightarrow> clean (schedule ev p d s)"
  by (auto simp: clean_def schedule_def set_insort_key)

lemma clean_update [simp]:
  "clean (s\<lparr>now := a\<rparr>) = clean s"
  "clean (s\<lparr>level := b\<rparr>) = clean s"
  "clean (s\<lparr>get_queue := c\<rparr>) = clean s"
  "clean (s\<lparr>put_queue := d\<rparr>) = clean s"
  "clean (s\<lparr>total_arrivals := e\<rparr>) = clean s"
  "clean (s\<lparr>served := f\<rparr>) = clean s"
  "clean (s\<lparr>in_repair := g\<rparr>) = clean s"
  "clean (s\<lparr>timeseries := h\<rparr>) = clean s"
  "clean (s\<lparr>rng := k\<rparr>) = clean s"
  by (simp_all add: clean_def)

lemma clean_pop: "clean s \<Longrightarrow> queue s = x # q \<Longrightarrow> clean (s\<lparr>now := t, queue := q\<rparr>)"
  by (simp add: clean_def)

lemma trigger_get_clean: "clean s \<Longrightarrow> clean (trigger_get s)"
  by (rule trigger_get_rule) (simp_all add: clean_schedule)

lemma trigger_put_clean: "clean s \<Longrightarrow> clean (trigger_put s)"
  by (rule trigger_put_rule) (simp_all add: clean_schedule)

lemma timeout_clean: "clean s \<Longrightarrow> 0 \<le> d \<Longrightarrow> clean (resume pr (timeout pr d s))"
  by (simp add: timeout_def clean_schedule)

lemma in_range_delay:
  assumes "in_range cfg"
  shows "0 \<le> unit_draws cfg k / demand_rate cfg" and "demand_rate cfg \<noteq> 0"
    and "0 \<le> repair_cycle_time cfg" and "0 \<le> record_interval cfg"
  using assms by (simp_all add: in_range_def)

lemma callbacks_clean:
  assumes "clean s" and "in_range cfg"
  shows "clean (callbacks cfg ev s)"
proof (cases ev)
  case (Initialize pr)
  then show ?thesis using assms(1) in_range_delay [OF assms(2)]
    by (cases pr)
      (simp_all add: vehicle_generator_def expovariate_def Let_def metrics_observer_def
        vehicle_arrive_def container_get_def repair_begin_def timeout_clean
        trigger_get_clean clean_schedule)
next
  case (Timeout pr)
  then show ?thesis using assms(1) in_range_delay [OF assms(2)]
    by (cases pr)
      (simp_all add: vehicle_generator_def expovariate_def Let_def metrics_observer_def
        env_process_def repair_return_def container_put_def timeout_clean
        trigger_put_clean clean_schedule)
next
  case ContainerGet
  then show ?thesis using assms(1)
    by (simp add: vehicle_served_def env_process_def trigger_put_clean clean_schedule)
next
  case ContainerPut
  then show ?thesis using assms(1)
    by (simp add: repair_end_def trigger_get_clean clean_schedule)
next
  case (Process pr r)
  then show ?thesis using assms(1) by simp
next
  case Until
  then show ?thesis using assms(1) by simp
qed

lemma arrival_Suc:
  "arrival cfg (Suc k) = arrival cfg k + unit_draws cfg k / demand_rate cfg"
  by (simp add: arrival_def add_divide_distrib)

lemma arrival_mono:
  assumes "in_range cfg" and "m \<le> n"
  shows "arrival cfg m \<le> arrival cfg n"
  using assms(2)
proof (rule lift_Suc_mono_le [rotated])
  fix k show "arrival cfg k \<le> arrival cfg (Suc k)"
    using in_range_delay(1) [OF assms(1), of k] by (simp add: arrival_Suc)
qed

lemma sample_time_mono:
  assumes "0 \<le> record_interval cfg" and "m \<le> n"
  shows "sample_time cfg m \<le> sample_time cfg n"
  using assms by (simp add: sample_time_def mult_right_mono)

lemma callbacks_rng:
  assumes "ev \<noteq> Initialize VehicleGenerator" and "ev \<noteq> Timeout VehicleGenerator"
  shows "rng (callbacks cfg ev s) = rng s"
proof (cases ev)
  case (Initialize pr)
  then show ?thesis using assms
    by (cases pr)
      (simp_all add: metrics_observer_def vehicle_arrive_def container_get_def
        repair_begin_def timeout_def counters_fields [OF trigger_get_counters])
next
  case (Timeout pr)
  then show ?thesis using assms
    by (cases pr)
      (simp_all add: metrics_observer_def repair_return_def container_put_def timeout_def
        counters_fields [OF trigger_put_counters])
next
  case ContainerGet
  then show ?thesis
    by (simp add: vehicle_served_def env_process_def counters_fields [OF trigger_put_counters])
next
  case ContainerPut
  then show ?thesis
    by (simp add: repair_end_def counters_fields [OF trigger_get_counters])
qed simp_all

lemma generator_awaited:
  assumes "ev = Initialize VehicleGenerator \<or> ev = Timeout VehicleGenerator"
    and "awaited VehicleGenerator s = []" and "demand_rate cfg \<noteq> 0"
    and "0 \<le> unit_draws cfg (rng s) / demand_rate cfg"
  shows "awaited VehicleGenerator (callbacks cfg ev s)
           = [now s + unit_draws cfg (rng s) / demand_rate cfg]"
  using assms
  by (auto simp: vehicle_generator_def expovariate_def Let_def timeout_def env_process_def
      awaited_timeout)

lemma callbacks_arriving:
  assumes "arriving cfg s" and "queue s = x # q" and "in_range cfg"
  shows "arriving cfg (callbacks cfg (ev_of x) (s\<lparr>now := time_of x, queue := q\<rparr>))"
proof -
  let ?s = "s\<lparr>now := time_of x, queue := q\<rparr>"
  have aw: "awaited VehicleGenerator s = [arrival cfg (rng s)]" and c: "clean s"
    using assms(1) by (simp_all add: arriving_def)
  have c': "clean (callbacks cfg (ev_of x) ?s)"
    using clean_pop [OF c assms(2)] assms(3) by (rule callbacks_clean)
  show ?thesis
  proof (cases "ev_of x = Initialize VehicleGenerator \<or> ev_of x = Timeout VehicleGenerator")
    case True
    have t: "time_of x = arrival cfg (rng s)"
      using awaited_head [OF assms(2) True] aw by simp
    have e: "awaited VehicleGenerator ?s = []"
      using awaited_pop [OF assms(2), of VehicleGenerator "time_of x"] True aw by simp
    have "awaited VehicleGenerator (callbacks cfg (ev_of x) ?s)
        = [now ?s + unit_draws cfg (rng ?s) / demand_rate cfg]"
      by (rule generator_awaited
          [OF True e in_range_delay(2) [OF assms(3)] in_range_delay(1) [OF assms(3)]])
    then have "awaited VehicleGenerator (callbacks cfg (ev_of x) ?s)
        = [arrival cfg (Suc (rng s))]"
      using t by (simp add: arrival_Suc)
    moreover have "rng (callbacks cfg (ev_of x) ?s) = Suc (rng s)"
      using generator_fields(8) [OF True, of cfg ?s] by simp
    ultimately show ?thesis using c' by (simp add: arriving_def)
  next
    case False
    have "awaited VehicleGenerator (callbacks cfg (ev_of x) ?s) = awaited VehicleGenerator ?s"
      using False by (simp add: callbacks_awaited)
    also have "\<dots> = awaited VehicleGenerator s"
      using awaited_pop [OF assms(2), of VehicleGenerator "time_of x"] False by simp
    finally show ?thesis using aw c' False by (simp add: arriving_def callbacks_rng)
  qed
qed

lemma step_arriving:
  assumes "arriving cfg s" and "in_range cfg" and "step cfg s = (r, s')"
  shows "arriving cfg s'"
proof (cases "queue s")
  case Nil
  then show ?thesis using assms by (simp add: step_empty)
next
  case (Cons x q)
  have "s' = callbacks cfg (ev_of x) (s\<lparr>now := time_of x, queue := q\<rparr>)"
    using step_popped [OF Cons, of cfg] assms(3) by simp
  then show ?thesis using callbacks_arriving [OF assms(1) Cons assms(2)] by simp
qed

lemma run_state_arriving:
  assumes "run_state cfg n0 T n = Some s" and "in_range cfg"
  shows "arriving cfg s"
proof -
  obtain s0 where s0: "start_state n0 = Inr s0" and T: "0 < T"
    and st: "steps cfg n (schedule Until URGENT T s0) = Some s"
    using assms(1) by (rule run_state_start)
  show ?thesis
    using st start_sampling(2) [OF s0 T]
  proof (rule steps_invariant)
    fix s s' assume a: "arriving cfg s" and b: "step cfg s = (None, s')"
    show "arriving cfg s'" using a assms(2) b by (rule step_arriving)
  qed
qed

subsection \<open>The loop comes to its end\<close>

lemma step_decreases:
  assumes r: "running T s" and sa: "sampling cfg s" and ar: "arriving cfg s"
    and cfg: "in_range cfg" and N: "T \<le> arrival cfg N" and K: "T \<le> sample_time cfg K"
    and q: "queue s = x # q" and ne: "ev_of x \<noteq> Until"
  shows "\<exists>s'. step cfg s = (None, s') \<and> potential N K s' < potential N K s"
proof -
  let ?s = "s\<lparr>now := time_of x, queue := q\<rparr>"
  have "raises (ev_of x) = {}"
    using ar q by (simp add: arriving_def clean_def)
  then have "fst (step cfg s) = None"
    using step_signal [OF q, of cfg] ne by simp
  moreover have s': "snd (step cfg s) = callbacks cfg (ev_of x) ?s"
    using q by (rule step_popped)
  ultimately have st: "step cfg s = (None, callbacks cfg (ev_of x) ?s)"
    by (cases "step cfg s") simp
  have "running T ?s" using r q ne by (rule running_pop)
  then have t: "time_of x < T" by (simp add: running_def)
  have g: "rng ?s < N"
    if "ev_of x = Initialize VehicleGenerator \<or> ev_of x = Timeout VehicleGenerator"
  proof (rule ccontr)
    assume "\<not> rng ?s < N"
    then have "arrival cfg N \<le> arrival cfg (rng s)"
      using arrival_mono [OF cfg, of N "rng s"] by simp
    moreover have "time_of x = arrival cfg (rng s)"
      using awaited_head [OF q that] ar by (simp add: arriving_def)
    ultimately show False using t N by simp
  qed
  have ri: "0 \<le> record_interval cfg" using cfg by (simp add: in_range_def)
  have k: "length (timeseries ?s) < K"
    if "ev_of x = Initialize MetricsObserver \<or> ev_of x = Timeout MetricsObserver"
  proof (rule ccontr)
    assume "\<not> length (timeseries ?s) < K"
    then have "sample_time cfg K \<le> sample_time cfg (length (timeseries s))"
      using sample_time_mono [OF ri, of K "length (timeseries s)"] by simp
    moreover have "time_of x = sample_time cfg (length (timeseries s))"
      using awaited_head [OF q that] sa by (simp add: sampling_def)
    ultimately show False using t K by simp
  qed
  have "potential N K (callbacks cfg (ev_of x) ?s) < potential N K ?s + weight (ev_of x)"
    using ne g k by (intro callbacks_potential) auto
  then have "potential N K (callbacks cfg (ev_of x) ?s) < potential N K s"
    using potential_pop [OF q, of N K "time_of x"] by simp
  then show ?thesis using st by simp
qed

lemma run_loop_stops:
  assumes "sound T n0 s" and "sampling cfg s" and "arriving cfg s"
    and "in_range cfg" and "T \<le> arrival cfg N" and "T \<le> sample_time cfg K"
    and "potential N K s < fuel"
  shows "\<exists>s'. run_loop cfg fuel s = Some (StopSimulation, s')"
  using assms(1,2,3,7)
proof (induction fuel arbitrary: s)
  case 0
  then show ?case by simp
next
  case (Suc fuel)
  have r: "running T s" using Suc.prems(1) by (simp add: sound_def)
  then obtain x q where q: "queue s = x # q"
    by (cases "queue s") (auto simp: running_def)
  show ?case
  proof (cases "ev_of x = Until")
    case True
    then have "fst (step cfg s) = Some StopSimulation"
      using step_signal [OF q, of cfg] by simp
    then show ?thesis by (cases "step cfg s") simp
  next
    case False
    obtain s' where st: "step cfg s = (None, s')"
      and less: "potential N K s' < potential N K s"
      using step_decreases [OF r Suc.prems(2,3) assms(4,5,6) q False] by blast
    have "\<exists>s''. run_loop cfg fuel s' = Some (StopSimulation, s'')"
    proof (rule Suc.IH)
      show "sound T n0 s'" using Suc.prems(1) st by (rule step_sound)
      show "sampling cfg s'"
        using Suc.prems(2) in_range_delay(4) [OF assms(4)] st by (rule step_sampling)
      show "arriving cfg s'" using Suc.prems(3) assms(4) st by (rule step_arriving)
      show "potential N K s' < fuel" using less Suc.prems(4) by simp
    qed
    then show ?thesis using st by simp
  qed
qed

lemma run_completes:
  assumes "1 \<le> n0" and "0 < T" and "in_range (make_config draws rate cycle interval)"
    and "0 < record_interval (make_config draws rate cycle interval)"
    and "T \<le> arrival (make_config draws rate cycle interval) N"
  shows "\<exists>fuel fm ts. run_simulation draws fuel n0 rate cycle T interval = Some (Inr (fm, ts))"
proof -
  let ?cfg = "make_config draws rate cycle interval"
  obtain s0 where s0: "start_state n0 = Inr s0"
    using assms(1) by (rule start_state_ok)
  have z: "now s0 = 0"
    using start_state_books(4) [OF s0 assms(2)] .
  let ?s1 = "schedule Until URGENT T s0"
  have "run_state ?cfg n0 T 0 = Some ?s1"
    using s0 z assms(2) by (simp add: run_state_def)
  then have so: "sound T n0 ?s1" by (rule run_state_sound)
  obtain K :: nat where "T / record_interval ?cfg \<le> of_nat K"
    using real_arch_simple by blast
  then have K: "T \<le> sample_time ?cfg K"
    using assms(4) by (simp add: sample_time_def pos_divide_le_eq)
  obtain s' where "run_loop ?cfg (Suc (potential N K ?s1)) ?s1 = Some (StopSimulation, s')"
    using run_loop_stops [OF so start_sampling [OF s0 assms(2)] assms(3,5) K, of "Suc (potential N K ?s1)"]
    by auto
  then have "env_run ?cfg (Suc (potential N K ?s1)) T s0 = Some (None, s')"
    using assms(2) z by (simp add: env_run_def)
  then have "run_simulation draws (Suc (potential N K ?s1)) n0 rate cycle T interval
      = Some (Inr (compute_final_metrics s', timeseries s'))"
    using s0 by (simp add: run_simulation_def)
  then show ?thesis by blast
qed

subsection \<open>The series of a completed call\<close>

lemma awaited_member:
  assumes "awaited p s = [t]"
  shows "\<exists>y\<in>set (queue s). time_of y = t"
proof -
  let ?P = "\<lambda>x. ev_of x = Initialize p \<or> ev_of x = Timeout p"
  obtain y where f: "filter ?P (queue s) = [y]" and t: "time_of y = t"
    using assms by (auto simp: awaited_def map_eq_Cons_conv)
  have "y \<in> set (filter ?P (queue s))" unfolding f by simp
  then have "y \<in> set (queue s)" using filter_is_subset [of ?P "queue s"] by blast
  then show ?thesis using t by blast
qed





subsection \<open>A record interval of 0\<close>

lemma zero_interval_goes_on:
  assumes "sound T n0 s" and "sampling cfg s" and "record_interval cfg = 0" and "0 < T"
  shows "fst (step cfg s) \<noteq> Some StopSimulation"
proof
  assume "fst (step cfg s) = Some StopSimulation"
  then obtain s' where st: "step cfg s = (Some StopSimulation, s')"
    by (cases "step cfg s") simp
  have "sampling cfg s'" using assms(2) _ st by (rule step_sampling) (simp add: assms(3))
  then obtain y where "y \<in> set (queue s')" and "time_of y = 0"
    using awaited_member [of MetricsObserver s'] by (auto simp: sampling_def sample_time_def assms(3))
  moreover have "stopped T s'"
    using assms(1) st by (auto simp: sound_def intro: step_stopped)
  ultimately show False using assms(4) by (auto simp: stopped_def)
qed

lemma zero_interval_incomplete:
  "run_simulation draws fuel n0 rate cycle T (Some 0) \<noteq> Some (Inr (fm, ts))"
proof
  let ?cfg = "make_config draws rate cycle (Some 0)"
  assume run: "run_simulation draws fuel n0 rate cycle T (Some 0) = Some (Inr (fm, ts))"
  have ri: "record_interval ?cfg = 0" by (simp add: make_config_def)
  obtain n s s' where rs: "run_state ?cfg n0 T n = Some s"
    and st: "step ?cfg s = (Some StopSimulation, s')"
    using run by (rule run_simulation_stop)
  have T: "0 < T" using rs by (rule run_state_start)
  have sa: "sampling ?cfg s" using rs by (rule run_state_sampling) (simp add: ri)
  have "fst (step ?cfg s) \<noteq> Some StopSimulation"
    using run_state_sound [OF rs] sa ri T by (rule zero_interval_goes_on)
  then show False using st by simp
qed

lemma zero_interval_loop:
  assumes "sound T n0 s" and "sampling cfg s" and "arriving cfg s" and "in_range cfg"
    and "record_interval cfg = 0" and "0 < T"
  shows "run_loop cfg fuel s = None"
  using assms(1,2,3)
proof (induction fuel arbitrary: s)
  case 0
  then show ?case by simp
next
  case (Suc fuel)
  have r: "running T s" using Suc.prems(1) by (simp add: sound_def)
  then obtain x q where q: "queue s = x # q"
    by (cases "queue s") (auto simp: running_def)
  have "fst (step cfg s) \<noteq> Some StopSimulation"
    using Suc.prems(1,2) assms(5,6) by (rule zero_interval_goes_on)
  then have ne: "ev_of x \<noteq> Until"
    using step_signal [OF q, of cfg] by auto
  moreover have "raises (ev_of x) = {}"
    using Suc.prems(3) q by (simp add: arriving_def clean_def)
  ultimately have "fst (step cfg s) = None"
    using step_signal [OF q, of cfg] by simp
  then obtain s' where st: "step cfg s = (None, s')"
    by (cases "step cfg s") simp
  have "run_loop cfg fuel s' = None"
  proof (rule Suc.IH)
    show "sound T n0 s'" using Suc.prems(1) st by (rule step_sound)
    show "sampling cfg s'"
      using Suc.prems(2) in_range_delay(4) [OF assms(4)] st by (rule step_sampling)
    show "arriving cfg s'" using Suc.prems(3) assms(4) st by (rule step_arriving)
  qed
  then show ?case using st by simp
qed

lemma zero_interval_never_returns:
  assumes "1 \<le> n0" and "0 < T" and "0 < rate" and "0 \<le> cycle" and "\<forall>k. 0 \<le> draws k"
  shows "run_simulation draws fuel n0 rate cycle T (Some 0) = None"
proof -
  let ?cfg = "make_config draws rate cycle (Some 0)"
  have cfg: "in_range ?cfg" and ri: "record_interval ?cfg = 0"
    using assms(3,4,5) by (simp_all add: in_range_def make_config_def)
  obtain s0 where s0: "start_state n0 = Inr s0"
    using assms(1) by (rule start_state_ok)
  have z: "now s0 = 0"
    using start_state_books(4) [OF s0 assms(2)] .
  let ?s1 = "schedule Until URGENT T s0"
  have "run_state ?cfg n0 T 0 = Some ?s1"
    using s0 z assms(2) by (simp add: run_state_def)
  then have "sound T n0 ?s1" by (rule run_state_sound)
  then have "run_loop ?cfg fuel ?s1 = None"
    using start_sampling [OF s0 assms(2)] cfg ri assms(2) by (rule zero_interval_loop)
  then have "env_run ?cfg fuel T s0 = None"
    using assms(2) z by (simp add: env_run_def)
  then show ?thesis using s0 by (simp add: run_simulation_def)
qed

subsection \<open>Failures of the two processes at their start\<close>

lemma raise_at_third:
  assumes rs: "run_state (make_config draws rate cycle interval) n0 T 2 = Some s"
    and q: "queue s = x # q" and x: "ev_of x = Process p (Some e)"
    and e: "e = ValueError \<or> e = ZeroDivisionError"
  shows "run_simulation draws fuel n0 rate cycle T interval
           = (if fuel < 3 then None else Some (Inl e))"
proof -
  let ?cfg = "make_config draws rate cycle interval"
  obtain s0 where s0: "start_state n0 = Inr s0" and T: "0 < T"
    and st: "steps ?cfg 2 (schedule Until URGENT T s0) = Some s"
    using rs by (rule run_state_start)
  have z: "now s0 = 0"
    using start_state_books(4) [OF s0 T] .
  let ?s1 = "schedule Until URGENT T s0"
  obtain sa where st1: "step ?cfg ?s1 = (None, sa)" and st2: "step ?cfg sa = (None, s)"
    using st by (auto simp: numeral_2_eq_2 steps_Suc simp del: steps.simps(2))
  have "fst (step ?cfg s) = Some e"
    using step_signal [OF q, of ?cfg] x by simp
  then obtain s4 where st3: "step ?cfg s = (Some e, s4)"
    by (cases "step ?cfg s") simp
  have loop: "run_loop ?cfg fuel ?s1 = (if fuel < 3 then None else Some (e, s4))"
  proof (cases "fuel < 3")
    case True
    then have "fuel = 0 \<or> fuel = Suc 0 \<or> fuel = Suc (Suc 0)" by arith
    then show ?thesis using True st1 st2 by auto
  next
    case False
    then have fuel: "fuel = Suc (Suc (Suc (fuel - 3)))" by simp
    have "run_loop ?cfg fuel ?s1 = Some (e, s4)"
      by (subst fuel) (simp add: st1 st2 st3)
    then show ?thesis using False by simp
  qed
  have "env_run ?cfg fuel T s0 = (if fuel < 3 then None else Some (Some e, s4))"
  proof (cases "fuel < 3")
    case True
    then show ?thesis using T z loop by (simp add: env_run_def)
  next
    case False
    then have "run_loop ?cfg fuel (schedule Until URGENT (T - now s0) s0) = Some (e, s4)"
      using loop z by simp
    then show ?thesis using T z e False by (auto simp: env_run_def)
  qed
  then show ?thesis using s0 by (simp add: run_simulation_def)
qed

lemma generator_failure:
  assumes "1 \<le> n0" and "0 < T"
    and "demand_rate cfg = 0 \<or> unit_draws cfg 0 / demand_rate cfg < 0"
  shows "\<exists>s x q. run_state cfg n0 T 2 = Some s \<and> queue s = x # q
           \<and> ev_of x = Process VehicleGenerator
                (Some (if demand_rate cfg = 0 then ZeroDivisionError else ValueError))"
proof -
  let ?e = "if demand_rate cfg = 0 then ZeroDivisionError else ValueError"
  define fail :: entry where "fail = (0, NORMAL, 3, Process VehicleGenerator (Some ?e))"
  obtain s1 s2 s3 where r0: "run_state cfg n0 T 0 = Some s1"
    and st1: "step cfg s1 = (None, s2)" and st2: "step cfg s2 = (None, s3)"
    and q1: "queue s1 = [(0, URGENT, 0, Initialize VehicleGenerator),
           (0, URGENT, 1, Initialize MetricsObserver), (T, URGENT, 2, Until)]"
    and e1: "eid s1 = 3" and g1: "rng s1 = 0"
    and s2: "s2 = callbacks cfg (Initialize VehicleGenerator)
        (s1\<lparr>now := 0, queue := tl (queue s1)\<rparr>)"
    and s3: "s3 = callbacks cfg (Initialize MetricsObserver)
        (s2\<lparr>now := 0, queue := tl (queue s2)\<rparr>)"
    by (rule first_steps [OF assms(1,2), of cfg])
  have q2: "queue s2 = [(0, URGENT, 1, Initialize MetricsObserver), fail, (T, URGENT, 2, Until)]"
    and e2: "eid s2 = 4"
    using assms(2,3) unfolding s2 fail_def q1
    by (auto simp: vehicle_generator_def expovariate_def Let_def timeout_def schedule_def
        e1 g1 URGENT_def NORMAL_def)
  have "\<exists>q. queue s3 = fail # q"
    unfolding s3 q2 fail_def
    by (simp add: metrics_observer_def timeout_def schedule_def e2 NORMAL_def)
  then obtain q where q3: "queue s3 = fail # q" by blast
  have "run_state cfg n0 T (Suc (Suc 0)) = Some s3"
    using r0 st1 st2 by (simp add: run_state_Suc)
  then have "run_state cfg n0 T 2 = Some s3" by (simp add: numeral_2_eq_2)
  then show ?thesis using q3 by (auto simp: fail_def)
qed

lemma observer_failure:
  assumes "1 \<le> n0" and "0 < T"
    and "demand_rate cfg \<noteq> 0" and "0 < unit_draws cfg 0 / demand_rate cfg"
    and "record_interval cfg < 0"
  shows "\<exists>s x q. run_state cfg n0 T 2 = Some s \<and> queue s = x # q
           \<and> ev_of x = Process MetricsObserver (Some ValueError)"
proof -
  define fail :: entry where "fail = (0, NORMAL, 4, Process MetricsObserver (Some ValueError))"
  define d where "d = unit_draws cfg 0 / demand_rate cfg"
  obtain s1 s2 s3 where r0: "run_state cfg n0 T 0 = Some s1"
    and st1: "step cfg s1 = (None, s2)" and st2: "step cfg s2 = (None, s3)"
    and q1: "queue s1 = [(0, URGENT, 0, Initialize VehicleGenerator),
           (0, URGENT, 1, Initialize MetricsObserver), (T, URGENT, 2, Until)]"
    and e1: "eid s1 = 3" and g1: "rng s1 = 0"
    and s2: "s2 = callbacks cfg (Initialize VehicleGenerator)
        (s1\<lparr>now := 0, queue := tl (queue s1)\<rparr>)"
    and s3: "s3 = callbacks cfg (Initialize MetricsObserver)
        (s2\<lparr>now := 0, queue := tl (queue s2)\<rparr>)"
    by (rule first_steps [OF assms(1,2), of cfg])
  have d: "0 < d" using assms(4) by (simp add: d_def)
  have q2: "tl (queue s2) = insort_key key (d, NORMAL, 3, Timeout VehicleGenerator)
      [(T, URGENT, 2, Until)]"
    and e2: "eid s2 = 4"
    using assms(2,3) d unfolding s2 q1
    by (auto simp: vehicle_generator_def expovariate_def Let_def timeout_def schedule_def
        e1 g1 d_def URGENT_def NORMAL_def)
  have "\<exists>q. queue s3 = fail # q"
    using assms(2,5) d unfolding s3 q2 fail_def
    by (auto simp: metrics_observer_def timeout_def schedule_def e2 NORMAL_def URGENT_def)
  then obtain q where q3: "queue s3 = fail # q" by blast
  have "run_state cfg n0 T (Suc (Suc 0)) = Some s3"
    using r0 st1 st2 by (simp add: run_state_Suc)
  then have "run_state cfg n0 T 2 = Some s3" by (simp add: numeral_2_eq_2)
  then show ?thesis using q3 by (auto simp: fail_def)
qed

lemma first_sample:
  assumes "1 \<le> n0" and "0 < T"
  shows "\<exists>s. run_state cfg n0 T 2 = Some s \<and> timeseries s = [first_snapshot n0]"
proof -
  obtain s1 s2 s3 where r0: "run_state cfg n0 T 0 = Some s1"
    and st1: "step cfg s1 = (None, s2)" and st2: "step cfg s2 = (None, s3)"
    and ts: "timeseries s3 = [first_snapshot n0]"
    using first_steps [OF assms, of cfg] by blast
  have "run_state cfg n0 T (Suc (Suc 0)) = Some s3"
    using r0 st1 st2 by (simp add: run_state_Suc)
  then have "run_state cfg n0 T 2 = Some s3" by (simp add: numeral_2_eq_2)
  then show ?thesis using ts by blast
qed

subsection \<open>No two entries share a key\<close>

lemma key_eid: "key x = key y \<Longrightarrow> eid_of x = eid_of y"
  by (cases x; cases y) simp

lemma distinct_map_insort_key:
  "distinct (map f (insort_key f x xs)) \<longleftrightarrow> f x \<notin> f ` set xs \<and> distinct (map f xs)"
  by (induction xs) (auto simp: set_insort_key)

lemma fresh_schedule: "fresh s \<Longrightarrow> fresh (schedule ev p d s)"
proof -
  assume f: "fresh s"
  let ?e = "(now s + d, p, eid s, ev)"
  have "key ?e \<notin> key ` set (queue s)"
  proof
    assume "key ?e \<in> key ` set (queue s)"
    then obtain y where y: "y \<in> set (queue s)" and "key ?e = key y" by auto
    then have "eid_of y = eid s" using key_eid [of ?e y] by simp
    then show False using f y by (auto simp: fresh_def)
  qed
  then show ?thesis using f
    by (auto simp: fresh_def schedule_def distinct_map_insort_key set_insort_key less_Suc_eq)
qed

lemma fresh_update [simp]:
  "fresh (s\<lparr>now := a\<rparr>) = fresh s"
  "fresh (s\<lparr>level := b\<rparr>) = fresh s"
  "fresh (s\<lparr>get_queue := c\<rparr>) = fresh s"
  "fresh (s\<lparr>put_queue := d\<rparr>) = fresh s"
  "fresh (s\<lparr>total_arrivals := e\<rparr>) = fresh s"
  "fresh (s\<lparr>served := f\<rparr>) = fresh s"
  "fresh (s\<lparr>in_repair := g\<rparr>) = fresh s"
  "fresh (s\<lparr>timeseries := h\<rparr>) = fresh s"
  "fresh (s\<lparr>rng := k\<rparr>) = fresh s"
  by (simp_all add: fresh_def)

lemma fresh_pop: "fresh s \<Longrightarrow> queue s = x # q \<Longrightarrow> fresh (s\<lparr>now := t, queue := q\<rparr>)"
  by (simp add: fresh_def)

lemma trigger_get_fresh: "fresh s \<Longrightarrow> fresh (trigger_get s)"
  by (rule trigger_get_rule) (simp_all add: fresh_schedule)

lemma trigger_put_fresh: "fresh s \<Longrightarrow> fresh (trigger_put s)"
  by (rule trigger_put_rule) (simp_all add: fresh_schedule)

lemma timeout_fresh: "fresh s \<Longrightarrow> fresh (resume pr (timeout pr d s))"
  by (simp add: timeout_def fresh_schedule)

lemma callbacks_fresh:
  assumes "fresh s"
  shows "fresh (callbacks cfg ev s)"
proof (cases ev)
  case (Initialize pr)
  then show ?thesis using assms
    by (cases pr)
      (simp_all add: vehicle_generator_def expovariate_def Let_def metrics_observer_def
        vehicle_arrive_def container_get_def repair_begin_def timeout_fresh
        trigger_get_fresh fresh_schedule)
next
  case (Timeout pr)
  then show ?thesis using assms
    by (cases pr)
      (simp_all add: vehicle_generator_def expovariate_def Let_def metrics_observer_def
        env_process_def repair_return_def container_put_def timeout_fresh
        trigger_put_fresh fresh_schedule)
next
  case ContainerGet
  then show ?thesis using assms
    by (simp add: vehicle_served_def env_process_def trigger_put_fresh fresh_schedule)
next
  case ContainerPut
  then show ?thesis using assms
    by (simp add: repair_end_def trigger_get_fresh fresh_schedule)
next
  case (Process pr r)
  then show ?thesis using assms by simp
next
  case Until
  then show ?thesis using assms by simp
qed

lemma step_fresh:
  assumes "fresh s" and "step cfg s = (r, s')"
  shows "fresh s'"
proof (cases "queue s")
  case Nil
  then show ?thesis using assms by (simp add: step_empty)
next
  case (Cons x q)
  have "s' = callbacks cfg (ev_of x) (s\<lparr>now := time_of x, queue := q\<rparr>)"
    using step_popped [OF Cons, of cfg] assms(2) by simp
  then show ?thesis using fresh_pop [OF assms(1) Cons] by (simp add: callbacks_fresh)
qed

subsection \<open>The heap has one least entry\<close>

lemma heappop_head:
  assumes "sorted (map key (queue s))" and "distinct (map key (queue s))"
  shows "heappop s x s' \<longleftrightarrow>
           (\<exists>q. queue s = x # q \<and> s' = s\<lparr>now := time_of x, queue := q\<rparr>)"
proof
  assume "\<exists>q. queue s = x # q \<and> s' = s\<lparr>now := time_of x, queue := q\<rparr>"
  then obtain q where q: "queue s = x # q" and s': "s' = s\<lparr>now := time_of x, queue := q\<rparr>"
    by blast
  have "\<forall>y\<in>set q. key x \<le> key y" using assms(1) unfolding q by simp
  then show "heappop s x s'" using q s' by (simp add: heappop_def)
next
  assume h: "heappop s x s'"
  then have x: "x \<in> set (queue s)" and le: "\<forall>y\<in>set (queue s). key x \<le> key y"
    and s': "s' = s\<lparr>now := time_of x, queue := remove1 x (queue s)\<rparr>"
    by (simp_all add: heappop_def)
  obtain y q where q: "queue s = y # q" using x by (cases "queue s") auto
  have "key y \<le> key x" using assms(1) x q by auto
  moreover have "key x \<le> key y" using le q by simp
  ultimately have k: "key x = key y" by simp
  have inj: "inj_on key (set (queue s))"
    using assms(2) by (simp add: distinct_map)
  have y: "y \<in> set (queue s)" unfolding q by simp
  have "x = y" by (rule inj_onD [OF inj k x y])
  then show "\<exists>q. queue s = x # q \<and> s' = s\<lparr>now := time_of x, queue := q\<rparr>"
    using q s' by simp
qed

lemma dispatch_step:
  assumes "queue s = x # q"
  shows "dispatch cfg x (s\<lparr>now := time_of x, queue := q\<rparr>) = step cfg s"
  using assms by (cases x) (simp add: dispatch_def step_def)

lemma settled_pop:
  assumes "settled T s" and "heappop s x s1"
  shows "dispatch cfg x s1 = step cfg s"
proof -
  have "sorted (map key (queue s))" and "distinct (map key (queue s))"
    using assms(1) by (simp_all add: settled_def running_def timely_def fresh_def)
  then obtain q where "queue s = x # q" and "s1 = s\<lparr>now := time_of x, queue := q\<rparr>"
    using assms(2) by (auto simp: heappop_head)
  then show ?thesis by (simp add: dispatch_step)
qed

lemma step_settled:
  assumes "settled T s" and "step cfg s = (None, s')"
  shows "settled T s'"
  using assms step_running [of T s cfg s'] step_fresh [of s cfg None s']
  by (simp add: settled_def)

lemma runs_run_loop:
  assumes "runs cfg s r" and "settled T s"
  shows "\<exists>fuel. run_loop cfg fuel s = Some r"
  using assms
proof (induction rule: runs.induct)
  case (empty s)
  then have "run_loop cfg (Suc 0) s = Some (EmptySchedule, s)"
    by (simp add: step_empty)
  then show ?case by blast
next
  case (raise s x s1 e s')
  have "step cfg s = (Some e, s')"
    using settled_pop [OF raise.prems raise.hyps(1), of cfg] raise.hyps(2) by simp
  then have "run_loop cfg (Suc 0) s = Some (e, s')" by simp
  then show ?case by blast
next
  case (continue s x s1 s' r)
  have st: "step cfg s = (None, s')"
    using settled_pop [OF continue.prems continue.hyps(1), of cfg] continue.hyps(2) by simp
  then have "settled T s'" using continue.prems by (rule step_settled [rotated])
  then obtain fuel where "run_loop cfg fuel s' = Some r"
    using continue.IH by blast
  then have "run_loop cfg (Suc fuel) s = Some r" using st by simp
  then show ?case by blast
qed

lemma settled_heappop:
  assumes "settled T s"
  obtains x q where "queue s = x # q" and "heappop s x (s\<lparr>now := time_of x, queue := q\<rparr>)"
proof -
  have so: "sorted (map key (queue s))" and di: "distinct (map key (queue s))"
    using assms by (simp_all add: settled_def running_def timely_def fresh_def)
  obtain x q where q: "queue s = x # q"
    using assms by (cases "queue s") (auto simp: settled_def running_def)
  then have "heappop s x (s\<lparr>now := time_of x, queue := q\<rparr>)"
    using heappop_head [OF so di] by simp
  then show ?thesis using that q by blast
qed

lemma run_loop_runs:
  assumes "run_loop cfg fuel s = Some r" and "settled T s"
  shows "runs cfg s r"
  using assms
proof (induction fuel arbitrary: s)
  case 0
  then show ?case by simp
next
  case (Suc fuel)
  obtain x q where q: "queue s = x # q"
    and h: "heappop s x (s\<lparr>now := time_of x, queue := q\<rparr>)"
    using Suc.prems(2) by (rule settled_heappop)
  have d: "dispatch cfg x (s\<lparr>now := time_of x, queue := q\<rparr>) = step cfg s"
    using q by (rule dispatch_step)
  obtain e s' where st: "step cfg s = (e, s')" by (cases "step cfg s") auto
  show ?case
  proof (cases e)
    case None
    then have "run_loop cfg fuel s' = Some r" using Suc.prems(1) st by simp
    moreover have "settled T s'" using Suc.prems(2) st None by (auto intro: step_settled)
    ultimately have "runs cfg s' r" by (rule Suc.IH)
    then show ?thesis using h d st None by (auto intro: runs.continue)
  next
    case (Some a)
    then have "r = (a, s')" using Suc.prems(1) st by simp
    then show ?thesis using h d st Some by (auto intro: runs.raise)
  qed
qed

lemma start_settled:
  assumes "start_state n0 = Inr s0" and "0 < T"
  shows "settled T (schedule Until URGENT T s0)"
proof -
  have "fresh (schedule Until URGENT T s0)"
    using start_queue(1,2) [OF assms] by (simp add: fresh_def URGENT_def)
  then show ?thesis using start_state_books(2) [OF assms] by (simp add: settled_def)
qed

subsection \<open>Calls and the generator\<close>

lemma runs_unique:
  assumes "runs cfg s r" and "runs cfg s r'" and "settled T s"
  shows "r = r'"
proof -
  obtain fuel where f: "run_loop cfg fuel s = Some r"
    using runs_run_loop [OF assms(1,3)] by blast
  obtain fuel' where f': "run_loop cfg fuel' s = Some r'"
    using runs_run_loop [OF assms(2,3)] by blast
  show ?thesis
  proof (cases "fuel \<le> fuel'")
    case True
    then show ?thesis using run_loop_more_fuel [OF f] f' by simp
  next
    case False
    then have "fuel' \<le> fuel" by simp
    then show ?thesis using run_loop_more_fuel [OF f'] f by simp
  qed
qed

lemma invocation_start:
  assumes "invocation g n0 rate cycle T interval out"
    and "start_state n0 = Inr s0" and "0 < T"
  obtains e s' where
    "runs (make_config g rate cycle interval) (schedule Until URGENT T s0) (e, s')"
    and "out = (if e = StopSimulation then Inr (compute_final_metrics s', timeseries s')
                else Inl (if e = EmptySchedule then RuntimeError else e), advance g (rng s'))"
proof -
  have z: "now s0 = 0" using start_state_books(4) [OF assms(2,3)] .
  from assms(1) show ?thesis
  proof (cases rule: invocation.cases)
    case (refused e)
    then show ?thesis using assms(2) by simp
  next
    case (no_time s)
    then show ?thesis using assms(2,3) z by simp
  next
    case (completed s s')
    then show ?thesis using assms(2) z that [of StopSimulation s'] by simp
  next
    case (raised s e s')
    then show ?thesis using assms(2) z that [of e s'] by simp
  qed
qed

lemma invocation_unique:
  assumes "invocation g n0 rate cycle T interval out"
    and "invocation g n0 rate cycle T interval out'"
  shows "out = out'"
proof (cases "start_state n0")
  case (Inl e)
  have "out = (Inl e, g)"
    using assms(1) Inl by (cases rule: invocation.cases) simp_all
  moreover have "out' = (Inl e, g)"
    using assms(2) Inl by (cases rule: invocation.cases) simp_all
  ultimately show ?thesis by simp
next
  case (Inr s0)
  show ?thesis
  proof (cases "0 < T")
    case True
    let ?cfg = "make_config g rate cycle interval"
    let ?s1 = "schedule Until URGENT T s0"
    obtain e s' where r: "runs ?cfg ?s1 (e, s')"
      and out: "out = (if e = StopSimulation then Inr (compute_final_metrics s', timeseries s')
                else Inl (if e = EmptySchedule then RuntimeError else e), advance g (rng s'))"
      using assms(1) Inr True by (rule invocation_start)
    obtain e' s'' where r': "runs ?cfg ?s1 (e', s'')"
      and out': "out' = (if e' = StopSimulation
                then Inr (compute_final_metrics s'', timeseries s'')
                else Inl (if e' = EmptySchedule then RuntimeError else e'), advance g (rng s''))"
      using assms(2) Inr True by (rule invocation_start)
    have "(e, s') = (e', s'')"
      using r r' start_settled [OF Inr True] by (rule runs_unique)
    then show ?thesis using out out' by simp
  next
    case False
    have z: "now s0 = 0"
      using start_state_eq [OF Inr] by (simp add: env_process_def environment_def)
    have "out = (Inl ValueError, g)"
      using assms(1) Inr False z by (cases rule: invocation.cases) simp_all
    moreover have "out' = (Inl ValueError, g)"
      using assms(2) Inr False z by (cases rule: invocation.cases) simp_all
    ultimately show ?thesis by simp
  qed
qed

lemma run_simulation_invocation:
  assumes "run_simulation g fuel n0 rate cycle T interval = Some r"
  shows "\<exists>g'. invocation g n0 rate cycle T interval (r, g')"
proof (cases "start_state n0")
  case (Inl e)
  then have "r = Inl e" using assms by (simp add: run_simulation_def)
  then show ?thesis using invocation.refused [OF Inl] by blast
next
  case (Inr s0)
  have z: "now s0 = 0"
    using start_state_eq [OF Inr] by (simp add: env_process_def environment_def)
  let ?cfg = "make_config g rate cycle interval"
  show ?thesis
  proof (cases "0 < T")
    case False
    then have "r = Inl ValueError"
      using assms Inr z by (simp add: run_simulation_def env_run_def)
    moreover have "T \<le> now s0" using False z by simp
    ultimately show ?thesis using invocation.no_time [OF Inr] by blast
  next
    case True
    then have nt: "\<not> T \<le> now s0" using z by simp
    obtain e s' where loop: "run_loop ?cfg fuel (schedule Until URGENT (T - now s0) s0)
        = Some (e, s')"
      using assms Inr nt
      by (auto simp: run_simulation_def env_run_def split: option.splits)
    have "settled T (schedule Until URGENT (T - now s0) s0)"
      using start_settled [OF Inr True] z by simp
    with loop have runs: "runs ?cfg (schedule Until URGENT (T - now s0) s0) (e, s')"
      by (rule run_loop_runs)
    show ?thesis
    proof (cases "e = StopSimulation")
      case True
      then have "r = Inr (compute_final_metrics s', timeseries s')"
        using assms Inr nt loop by (simp add: run_simulation_def env_run_def)
      then show ?thesis using invocation.completed [OF Inr nt] runs True by blast
    next
      case False
      then have "r = Inl (if e = EmptySchedule then RuntimeError else e)"
        using assms Inr nt loop by (cases e) (simp_all add: run_simulation_def env_run_def)
      then show ?thesis using invocation.raised [OF Inr nt runs False] by blast
    qed
  qed
qed

lemma invocation_run_simulation:
  assumes "invocation g n0 rate cycle T interval (r, g')"
  shows "\<exists>fuel. run_simulation g fuel n0 rate cycle T interval = Some r"
proof (cases "start_state n0")
  case (Inl e)
  have "(r, g') = (Inl e, g)"
    using assms Inl by (cases rule: invocation.cases) simp_all
  then show ?thesis using Inl by (simp add: run_simulation_def)
next
  case (Inr s0)
  have z: "now s0 = 0"
    using start_state_eq [OF Inr] by (simp add: env_process_def environment_def)
  let ?cfg = "make_config g rate cycle interval"
  show ?thesis
  proof (cases "0 < T")
    case False
    have "(r, g') = (Inl ValueError, g)"
      using assms Inr False z by (cases rule: invocation.cases) simp_all
    then show ?thesis using Inr False z by (simp add: run_simulation_def env_run_def)
  next
    case True
    obtain e s' where runs: "runs ?cfg (schedule Until URGENT T s0) (e, s')"
      and out: "(r, g') = (if e = StopSimulation
                then Inr (compute_final_metrics s', timeseries s')
                else Inl (if e = EmptySchedule then RuntimeError else e), advance g (rng s'))"
      using assms Inr True by (rule invocation_start)
    obtain fuel where loop: "run_loop ?cfg fuel (schedule Until URGENT T s0) = Some (e, s')"
      using runs_run_loop [OF runs start_settled [OF Inr True]] by blast
    have "run_simulation g fuel n0 rate cycle T interval = Some r"
      using Inr True z loop out by (cases e) (simp_all add: run_simulation_def env_run_def)
    then show ?thesis by blast
  qed
qed

lemma unseeded_first:
  "case start_state 1 of
     Inl e \<Rightarrow> False
   | Inr s \<Rightarrow>
       (case env_run (make_config (\<lambda>k. if k = 0 then 1 / 2 else 5) 1 1 (Some 1)) 30 2 s of
          Some (None, s') \<Rightarrow> rng s' = 2 \<and> fm_total_arrivals (compute_final_metrics s') = 1
        | _ \<Rightarrow> False)"
  by code_simp

lemma unseeded_second:
  "case run_simulation (advance (\<lambda>k. if k = 0 then 1 / 2 else 5) 2) 30 1 1 1 2 (Some 1) of
     Some (Inr (fm, ts)) \<Rightarrow> fm_total_arrivals fm = 0
   | _ \<Rightarrow> False"
  by code_simp

lemma env_run_invocation:
  assumes "start_state n0 = Inr s0"
    and "env_run (make_config g rate cycle interval) fuel T s0 = Some (None, s')"
  shows "invocation g n0 rate cycle T interval
           (Inr (compute_final_metrics s', timeseries s'), advance g (rng s'))"
proof -
  let ?cfg = "make_config g rate cycle interval"
  have nt: "\<not> T \<le> now s0"
    using assms(2) by (auto simp: env_run_def)
  have z: "now s0 = 0"
    using start_state_eq [OF assms(1)] by (simp add: env_process_def environment_def)
  have loop: "run_loop ?cfg fuel (schedule Until URGENT (T - now s0) s0)
      = Some (StopSimulation, s')"
    using assms(2) nt by (auto simp: env_run_def split: option.splits exn.splits)
  have "settled T (schedule Until URGENT (T - now s0) s0)"
    using start_settled [OF assms(1), of T] nt z by simp
  with loop have "runs ?cfg (schedule Until URGENT (T - now s0) s0) (StopSimulation, s')"
    by (rule run_loop_runs)
  then show ?thesis using assms(1) nt by (rule invocation.completed [rotated 2])
qed

lemma unseeded_invocations_differ:
  "\<exists>fm ts g' fm' ts' g''.
     invocation (\<lambda>k. if k = 0 then 1 / 2 else 5) 1 1 1 2 (Some 1) (Inr (fm, ts), g')
     \<and> invocation g' 1 1 1 2 (Some 1) (Inr (fm', ts'), g'')
     \<and> fm_total_arrivals fm = 1 \<and> fm_total_arrivals fm' = 0"
proof -
  let ?g = "\<lambda>k::nat. if k = 0 then 1 / 2 else (5::rat)"
  obtain s0 s' where s0: "start_state 1 = Inr s0"
    and run: "env_run (make_config ?g 1 1 (Some 1)) 30 2 s0 = Some (None, s')"
    and k: "rng s' = 2" and a: "fm_total_arrivals (compute_final_metrics s') = 1"
    using unseeded_first by (auto split: sum.splits option.splits prod.splits)
  have first: "invocation ?g 1 1 1 2 (Some 1)
      (Inr (compute_final_metrics s', timeseries s'), advance ?g 2)"
    using env_run_invocation [OF s0 run] k by simp
  obtain fm' ts' where
    "run_simulation (advance ?g 2) 30 1 1 1 2 (Some 1) = Some (Inr (fm', ts'))"
    and a': "fm_total_arrivals fm' = 0"
    using unseeded_second by (auto split: option.splits sum.splits prod.splits)
  then obtain g'' where "invocation (advance ?g 2) 1 1 1 2 (Some 1) (Inr (fm', ts'), g'')"
    using run_simulation_invocation by blast
  then show ?thesis using first a a' by blast
qed

subsection \<open>A negative repair cycle time\<close>

lemma trigger_get_repairs:
  "served (trigger_get s) = served s
   \<and> pending (Initialize RepairProcess) (trigger_get s) = pending (Initialize RepairProcess) s
   \<and> pending (Process RepairProcess (Some ValueError)) (trigger_get s)
       = pending (Process RepairProcess (Some ValueError)) s"
  by (rule trigger_get_rule) simp_all

lemma trigger_put_repairs:
  "served (trigger_put s) = served s
   \<and> pending (Initialize RepairProcess) (trigger_put s) = pending (Initialize RepairProcess) s
   \<and> pending (Process RepairProcess (Some ValueError)) (trigger_put s)
       = pending (Process RepairProcess (Some ValueError)) s"
  by (rule trigger_put_rule) simp_all

lemma failing_repairs_callbacks:
  assumes neg: "repair_cycle_time cfg < 0" and inv: "failing_repairs s"
    and q: "queue s = (t, p, i, ev) # q"
    and ev: "ev \<noteq> Process RepairProcess (Some ValueError)"
  shows "failing_repairs (callbacks cfg ev (s\<lparr>now := t, queue := q\<rparr>))"
proof -
  let ?s = "s\<lparr>now := t, queue := q\<rparr>"
  note pop = pending_pop [OF q]
  show ?thesis
  proof (cases ev)
    case (Initialize pr)
    show ?thesis
    proof (cases pr)
      case VehicleGenerator
      then show ?thesis using inv Initialize
        by (simp add: failing_repairs_def pop vehicle_generator_def expovariate_def
            timeout_def Let_def)
    next
      case MetricsObserver
      then show ?thesis using inv Initialize
        by (simp add: failing_repairs_def pop metrics_observer_def timeout_def)
    next
      case Vehicle
      then show ?thesis using inv Initialize
        by (simp add: failing_repairs_def pop vehicle_arrive_def container_get_def
            trigger_get_repairs)
    next
      case RepairProcess
      then show ?thesis using inv Initialize neg
        by (simp add: failing_repairs_def pop repair_begin_def timeout_def)
    qed
  next
    case (Timeout pr)
    show ?thesis
    proof (cases pr)
      case VehicleGenerator
      then show ?thesis using inv Timeout
        by (simp add: failing_repairs_def pop vehicle_generator_def expovariate_def
            timeout_def Let_def env_process_def)
    next
      case MetricsObserver
      then show ?thesis using inv Timeout
        by (simp add: failing_repairs_def pop metrics_observer_def timeout_def)
    next
      case Vehicle
      then show ?thesis using inv Timeout by (simp add: failing_repairs_def pop)
    next
      case RepairProcess
      then show ?thesis using inv Timeout
        by (simp add: failing_repairs_def pop repair_return_def container_put_def
            trigger_put_repairs)
    qed
  next
    case ContainerGet
    then show ?thesis using inv
      by (simp add: failing_repairs_def pop vehicle_served_def env_process_def
          trigger_put_repairs)
  next
    case ContainerPut
    then show ?thesis using inv
      by (simp add: failing_repairs_def pop repair_end_def trigger_get_repairs)
  next
    case (Process pr r)
    then show ?thesis using inv ev by (auto simp: failing_repairs_def pop)
  next
    case Until
    then show ?thesis using inv by (simp add: failing_repairs_def pop)
  qed
qed

lemma step_failing_repairs:
  assumes "repair_cycle_time cfg < 0" and "failing_repairs s" and "step cfg s = (r, s')"
    and "r = None \<or> r = Some StopSimulation"
  shows "failing_repairs s'"
proof (cases "queue s")
  case Nil
  then show ?thesis using assms by (simp add: step_def)
next
  case (Cons x q)
  obtain t p i ev where x: "x = (t, p, i, ev)" by (cases x) auto
  have "ev \<noteq> Process RepairProcess (Some ValueError)"
    using assms Cons x by (auto simp: step_def Let_def)
  then have "failing_repairs (callbacks cfg ev (s\<lparr>now := t, queue := q\<rparr>))"
    using failing_repairs_callbacks assms(1,2) Cons x by simp
  moreover have "s' = callbacks cfg ev (s\<lparr>now := t, queue := q\<rparr>)"
    using assms(3,4) Cons x by (auto simp: step_def Let_def split: event.splits option.splits)
  ultimately show ?thesis by simp
qed

lemma negative_cycle_serves_none:
  assumes "run_simulation draws fuel n0 rate cycle T interval = Some (Inr (fm, ts))"
    and "cycle < 0"
  shows "fm_served fm = 0"
proof -
  let ?cfg = "make_config draws rate cycle interval"
  have neg: "repair_cycle_time ?cfg < 0" using assms(2) by (simp add: make_config_def)
  obtain n s s' where rs: "run_state ?cfg n0 T n = Some s"
    and st: "step ?cfg s = (Some StopSimulation, s')" and fm: "fm = compute_final_metrics s'"
    using assms(1) by (rule run_simulation_stop)
  obtain s0 where s0: "start_state n0 = Inr s0" and T: "0 < T"
    and steps: "steps ?cfg n (schedule Until URGENT T s0) = Some s"
    using rs by (rule run_state_start)
  have "failing_repairs (schedule Until URGENT T s0)"
    using start_queue [OF s0 T] by (simp add: failing_repairs_def pending_def counters_def)
  with steps have "failing_repairs s"
  proof (rule steps_invariant)
    fix s s' assume "failing_repairs s" and "step ?cfg s = (None, s')"
    with neg show "failing_repairs s'" by (rule step_failing_repairs) simp
  qed
  with neg have "failing_repairs s'" using st by (rule step_failing_repairs) simp
  moreover have "stopped T s'"
    using run_state_sound [OF rs] st by (auto simp: sound_def intro: step_stopped)
  ultimately have "served s' = 0"
    by (simp add: failing_repairs_def stopped_pending)
  then show ?thesis using fm by (simp add: compute_final_metrics_def)
qed

lemma negative_cycle_raises:
  "run_simulation (\<lambda>k. 1 / 2) 7 1 1 (- 1) 2 None = None"
  "run_simulation (\<lambda>k. 1 / 2) 8 1 1 (- 1) 2 None = Some (Inl ValueError)"
  by code_simp+

lemma negative_cycle_unnoticed:
  "run_simulation (\<lambda>k. 5) 20 1 1 (- 1) 2 None =
     Some (Inr (\<lparr>demand_satisfaction_rate = 0, fm_total_arrivals = 0, fm_served = 0,
                  fm_backlog = 0, fm_available_supply = 1, fm_in_repair = 0\<rparr>,
                [\<lparr>time = 0, available_supply = 1, backlog = 0, snap_in_repair = 0,
                   snap_total_arrivals = 0, snap_served = 0, satisfaction_rate = 0\<rparr>,
                 \<lparr>time = 1, available_supply = 1, backlog = 0, snap_in_repair = 0,
                   snap_total_arrivals = 0, snap_served = 0, satisfaction_rate = 0\<rparr>]))"
  by code_simp

section \<open>The claims\<close>

subsection \<open>Conservation of the units\<close>

text \<open>
  C1, the claim as stated fails. In the call below the first vehicle arrives at time 1,
  the instant of the second sample, and its timeout was scheduled before the observer's:
  the get is granted, the level drops to 1 of 2, and the sample is taken before the
  vehicle and its repair process have run, so that \<open>in_repair\<close> is still 0.
\<close>

theorem conservation_counterexample:
  "\<exists>fm ts. run_simulation (\<lambda>k. if k = 0 then 1 else 100) 20 2 1 5 3 (Some 1) = Some (Inr (fm, ts))
     \<and> time (ts ! 1) = 1 \<and> available_supply (ts ! 1) + snap_in_repair (ts ! 1) = 1"
  by (simp add: coincidence_run)

text \<open>
  C1, amended: in \<open>final_metrics\<close> of every completed call
  \<open>available_supply + in_repair\<close> equals \<open>initial_supply\<close>. Every recorded snapshot shows a
  state of the run, and there \<open>available_supply + in_repair\<close> equals \<open>initial_supply\<close> less
  the units on their way into repair (granted, not yet counted in \<open>in_repair\<close>) plus the
  units on their way back (put into the level, still counted in \<open>in_repair\<close>): the law
  holds at a sample unless a grant or a release of that same instant is still being
  processed.
\<close>

theorem conservation_with_transit:
  assumes "run_simulation draws fuel n0 rate cycle T interval = Some (Inr (fm, ts))"
  shows "fm_available_supply fm + fm_in_repair fm = n0 \<and>
         (\<forall>snap\<in>set ts. \<exists>k s.
            run_state (make_config draws rate cycle interval) n0 T k = Some s \<and> taken_in snap s
            \<and> available_supply snap + snap_in_repair snap
                = n0 - entering_repair s + leaving_repair s)"
proof
  obtain s' where fm: "fm = compute_final_metrics s'" and a: "accounting s'"
    and st: "stopped T s'" and c: "capacity s' = n0"
    and tk: "\<forall>snap\<in>set ts. \<exists>k s.
               run_state (make_config draws rate cycle interval) n0 T k = Some s \<and> taken_in snap s"
    using assms by (rule run_simulation_final)
  have "pending ContainerGet s' = 0" "pending (Initialize RepairProcess) s' = 0"
    "pending ContainerPut s' = 0" "pending (Process RepairProcess (Some ValueError)) s' = 0"
    using st by (simp_all add: stopped_pending)
  then have "level s' + in_repair s' = capacity s'"
    using a by (simp add: accounting_def units_def repairing_def)
  then show "fm_available_supply fm + fm_in_repair fm = n0"
    using c by (simp add: fm compute_final_metrics_def)
  show "\<forall>snap\<in>set ts. \<exists>k s.
          run_state (make_config draws rate cycle interval) n0 T k = Some s \<and> taken_in snap s
          \<and> available_supply snap + snap_in_repair snap
              = n0 - entering_repair s + leaving_repair s"
  proof
    fix snap assume "snap \<in> set ts"
    then obtain k s where rs: "run_state (make_config draws rate cycle interval) n0 T k = Some s"
      and t: "taken_in snap s"
      using tk by blast
    have "sound T n0 s" using rs by (rule run_state_sound)
    then have "units s = n0" and "in_repair s = repairing s"
      by (simp_all add: sound_def accounting_def)
    then have "level s + in_repair s = n0 - entering_repair s + leaving_repair s"
      by (simp add: units_def repairing_def entering_repair_def leaving_repair_def)
    then have "available_supply snap + snap_in_repair snap
        = n0 - entering_repair s + leaving_repair s"
      using t by (simp add: taken_in_def)
    then show "\<exists>k s. run_state (make_config draws rate cycle interval) n0 T k = Some s
        \<and> taken_in snap s
        \<and> available_supply snap + snap_in_repair snap = n0 - entering_repair s + leaving_repair s"
      using rs t by blast
  qed
qed

theorem conservation_with_transit_witness:
  "\<exists>fm ts. run_simulation (\<lambda>k. 1 / 2) 40 1 1 1 2 (Some 1) = Some (Inr (fm, ts))
     \<and> fm_available_supply fm + fm_in_repair fm = 1"
  using conservation_with_transit [OF example_run] example_run by blast

subsection \<open>Determinism\<close>

text \<open>
  C2: \<open>run_simulation\<close> has no seed among its arguments; the seed of the claim is the
  state in which \<open>random.seed\<close> has put the generator of the module when the call is
  made. Two calls with the same arguments made in the same state \<open>g\<close> of the generator
  return the same \<open>final_metrics\<close> and \<open>timeseries\<close>, or raise the same exception, and
  leave the generator in the same state, whichever least entry the heap hands out at
  each step: no two entries of the queue ever share a key, so there is one such entry.
  The result is the one the function \<open>run_simulation\<close> computes from the draws of \<open>g\<close>.
\<close>

theorem invocation_deterministic:
  assumes "invocation g n0 rate cycle T interval (r, g')"
    and "invocation g n0 rate cycle T interval (r', g'')"
  shows "r = r' \<and> g' = g''
         \<and> (\<exists>fuel. run_simulation g fuel n0 rate cycle T interval = Some r)"
  using invocation_unique [OF assms] invocation_run_simulation [OF assms(1)] by simp

theorem invocation_deterministic_witness:
  "\<exists>fm ts g'. invocation (\<lambda>k. 1 / 2) 1 1 1 2 (Some 1) (Inr (fm, ts), g')
     \<and> run_simulation (\<lambda>k. 1 / 2) 60 1 1 1 2 (Some 1) = Some (Inr (fm, ts))
     \<and> fm_total_arrivals fm = 3"
proof -
  obtain g' where one: "invocation (\<lambda>k. 1 / 2) 1 1 1 2 (Some 1)
      (Inr (\<lparr>demand_satisfaction_rate = 2 / 3, fm_total_arrivals = 3, fm_served = 2,
                  fm_backlog = 1, fm_available_supply = 0, fm_in_repair = 1\<rparr>,
                [\<lparr>time = 0, available_supply = 1, backlog = 0, snap_in_repair = 0,
                   snap_total_arrivals = 0, snap_served = 0, satisfaction_rate = 0\<rparr>,
                 \<lparr>time = 1, available_supply = 0, backlog = 0, snap_in_repair = 1,
                   snap_total_arrivals = 1, snap_served = 1, satisfaction_rate = 1\<rparr>]), g')"
    using run_simulation_invocation [OF example_run] by blast
  obtain r where again: "run_simulation (\<lambda>k. 1 / 2) 60 1 1 1 2 (Some 1) = Some r"
    using example_run_again by auto
  then obtain g'' where two: "invocation (\<lambda>k. 1 / 2) 1 1 1 2 (Some 1) (r, g'')"
    using run_simulation_invocation by blast
  from invocation_deterministic [OF two one] show ?thesis
    using one again by auto
qed

subsection \<open>The backlog\<close>

text \<open>
  C3, the claim as stated fails, in the same call as for C1: at time 1 the vehicle that
  has just arrived holds a granted get and has not been resumed, so the get queue is
  empty while \<open>total_arrivals - served\<close> is 1.
\<close>

theorem backlog_counterexample:
  "\<exists>fm ts. run_simulation (\<lambda>k. if k = 0 then 1 else 100) 20 2 1 5 3 (Some 1) = Some (Inr (fm, ts))
     \<and> backlog (ts ! 1) = 0 \<and> snap_total_arrivals (ts ! 1) - snap_served (ts ! 1) = 1"
  by (simp add: coincidence_run)

text \<open>
  C3, amended: in \<open>final_metrics\<close> of every completed call \<open>backlog\<close> equals
  \<open>total_arrivals - served\<close>. Every recorded snapshot shows a state of the run; its
  \<open>backlog\<close> is the length of the get queue there, and equals
  \<open>total_arrivals - served\<close> less the gets granted at that instant whose vehicles have
  not been resumed yet.
\<close>

theorem backlog_with_grants:
  assumes "run_simulation draws fuel n0 rate cycle T interval = Some (Inr (fm, ts))"
  shows "fm_backlog fm = fm_total_arrivals fm - fm_served fm \<and>
         (\<forall>snap\<in>set ts. \<exists>k s.
            run_state (make_config draws rate cycle interval) n0 T k = Some s \<and> taken_in snap s
            \<and> backlog snap = int (length (get_queue s))
            \<and> backlog snap = snap_total_arrivals snap - snap_served snap - pending ContainerGet s)"
proof
  obtain s' where fm: "fm = compute_final_metrics s'" and a: "accounting s'"
    and st: "stopped T s'"
    and tk: "\<forall>snap\<in>set ts. \<exists>k s.
               run_state (make_config draws rate cycle interval) n0 T k = Some s \<and> taken_in snap s"
    using assms by (rule run_simulation_final)
  have "pending ContainerGet s' = 0"
    using st by (simp add: stopped_pending)
  then have "int (length (get_queue s')) = total_arrivals s' - served s'"
    using a by (simp add: accounting_def demand_def)
  then show "fm_backlog fm = fm_total_arrivals fm - fm_served fm"
    by (simp add: fm compute_final_metrics_def)
  show "\<forall>snap\<in>set ts. \<exists>k s.
          run_state (make_config draws rate cycle interval) n0 T k = Some s \<and> taken_in snap s
          \<and> backlog snap = int (length (get_queue s))
          \<and> backlog snap = snap_total_arrivals snap - snap_served snap - pending ContainerGet s"
  proof
    fix snap assume "snap \<in> set ts"
    then obtain k s where rs: "run_state (make_config draws rate cycle interval) n0 T k = Some s"
      and t: "taken_in snap s"
      using tk by blast
    have "sound T n0 s" using rs by (rule run_state_sound)
    then have "total_arrivals s = demand s"
      by (simp add: sound_def accounting_def)
    then have "backlog snap = int (length (get_queue s))
        \<and> backlog snap = snap_total_arrivals snap - snap_served snap - pending ContainerGet s"
      using t by (simp add: taken_in_def demand_def)
    then show "\<exists>k s. run_state (make_config draws rate cycle interval) n0 T k = Some s
        \<and> taken_in snap s \<and> backlog snap = int (length (get_queue s))
        \<and> backlog snap = snap_total_arrivals snap - snap_served snap - pending ContainerGet s"
      using rs t by blast
  qed
qed

theorem backlog_with_grants_witness:
  "\<exists>fm ts. run_simulation (\<lambda>k. 1 / 2) 40 1 1 1 2 (Some 1) = Some (Inr (fm, ts))
     \<and> fm_backlog fm = fm_total_arrivals fm - fm_served fm"
  using backlog_with_grants [OF example_run] example_run by blast

subsection \<open>The horizon\<close>

text \<open>
  C4, the claim as stated fails: \<open>Environment.run\<close> schedules its \<open>until\<close> event as
  urgent, ahead of every other event of time \<open>sim_time\<close>. With \<open>sim_time = 1\<close> and
  \<open>record_interval = 1\<close> the observer's timeout of time 1 is still in the queue when the
  run has ended, and only the sample of time 0 is recorded.
\<close>

theorem horizon_counterexample:
  "\<exists>s0 s'. start_state 1 = Inr s0
     \<and> env_run (make_config (\<lambda>k. 2) 1 5 (Some 1)) 10 1 s0 = Some (None, s')
     \<and> (1, NORMAL, 4, Timeout MetricsObserver) \<in> set (queue s')
     \<and> map time (timeseries s') = [0]"
proof -
  have "case start_state 1 of
          Inl e \<Rightarrow> False
        | Inr s0 \<Rightarrow>
            (case env_run (make_config (\<lambda>k. 2) 1 5 (Some 1)) 10 1 s0 of
               Some (None, s') \<Rightarrow>
                 (1, NORMAL, 4, Timeout MetricsObserver) \<in> set (queue s')
                 \<and> map time (timeseries s') = [0]
             | _ \<Rightarrow> False)"
    by code_simp
  then show ?thesis
    by (auto split: sum.splits option.splits prod.splits)
qed

text \<open>
  C4, amended: when \<open>env.run(until=sim_time)\<close> returns within \<open>run_simulation\<close>, the clock
  is at \<open>sim_time\<close>, every event left in the queue is scheduled at \<open>sim_time\<close> or later
  (so every event scheduled before the horizon has been executed), and every event that
  has been executed ran at a time strictly before the horizon: the clock of every state
  of the run, and the time of every snapshot, is below \<open>sim_time\<close>. Events scheduled at
  exactly the horizon are left unexecuted like those beyond it.
\<close>

theorem horizon_excluded:
  assumes "start_state n0 = Inr s0" and "env_run cfg fuel T s0 = Some (None, s')"
  shows "now s' = T \<and> (\<forall>x\<in>set (queue s'). T \<le> time_of x)
         \<and> (\<forall>snap\<in>set (timeseries s'). time snap < T)
         \<and> (\<forall>n s. run_state cfg n0 T n = Some s \<longrightarrow> now s < T)"
proof -
  obtain n s where rs: "run_state cfg n0 T n = Some s"
    and st: "step cfg s = (Some StopSimulation, s')"
    using assms by (rule env_run_stop)
  have before: "now s1 < T" if "run_state cfg n0 T k = Some s1" for k s1
    using run_state_sound [OF that] by (simp add: sound_def running_def)
  have r: "running T s" using run_state_sound [OF rs] by (simp add: sound_def)
  have "stopped T s'" using r st by (rule step_stopped)
  then have "now s' = T" and "\<forall>x\<in>set (queue s'). T \<le> time_of x"
    by (simp_all add: stopped_def)
  moreover have "\<forall>snap\<in>set (timeseries s'). time snap < T"
  proof
    fix snap assume "snap \<in> set (timeseries s')"
    then have "snap \<in> set (timeseries s)"
      using step_stop_state [OF r st] by simp
    then obtain k s1 where "run_state cfg n0 T k = Some s1" and "taken_in snap s1"
      using run_state_snapshots [OF rs] by blast
    then show "time snap < T" using before by (simp add: taken_in_def)
  qed
  ultimately show ?thesis using before by blast
qed

theorem horizon_excluded_witness:
  "\<exists>s0 s'. start_state 1 = Inr s0
     \<and> env_run (make_config (\<lambda>k. 2) 1 5 (Some 1)) 10 1 s0 = Some (None, s')
     \<and> now s' = 1 \<and> length (timeseries s') = 1"
proof -
  have "case start_state 1 of
          Inl e \<Rightarrow> False
        | Inr s0 \<Rightarrow>
            (case env_run (make_config (\<lambda>k. 2) 1 5 (Some 1)) 10 1 s0 of
               Some (None, s') \<Rightarrow> length (timeseries s') = 1
             | _ \<Rightarrow> False)"
    by code_simp
  then obtain s0 s' where s0: "start_state 1 = Inr s0"
    and run: "env_run (make_config (\<lambda>k. 2) 1 5 (Some 1)) 10 1 s0 = Some (None, s')"
    and len: "length (timeseries s') = 1"
    by (auto split: sum.splits option.splits prod.splits)
  from horizon_excluded [OF s0 run] have "now s' = 1" by simp
  then show ?thesis using s0 run len by blast
qed

subsection \<open>Validation of the arguments\<close>

text \<open>
  C5, the claim as stated fails: \<open>run_simulation\<close> has no validation of its own and no
  \<open>ConfigError\<close>. A call with \<open>repair_cycle_time = 0\<close> runs to its end and returns its
  metrics.
\<close>

theorem validation_counterexample:
  "run_simulation (\<lambda>k. 1 / 2) 40 1 1 0 2 None =
     Some (Inr (\<lparr>demand_satisfaction_rate = 1, fm_total_arrivals = 3, fm_served = 3,
                  fm_backlog = 0, fm_available_supply = 1, fm_in_repair = 0\<rparr>,
                [\<lparr>time = 0, available_supply = 1, backlog = 0, snap_in_repair = 0,
                   snap_total_arrivals = 0, snap_served = 0, satisfaction_rate = 0\<rparr>,
                 \<lparr>time = 1, available_supply = 1, backlog = 0, snap_in_repair = 0,
                   snap_total_arrivals = 1, snap_served = 1, satisfaction_rate = 1\<rparr>]))"
  by code_simp

text \<open>
  C5, amended. Two arguments are refused before any event is processed, each with
  \<open>ValueError\<close>: an \<open>initial_supply\<close> below 1 by the constructor of the container, and a
  \<open>sim_time\<close> that is not positive by \<open>Environment.run\<close> (the fuel is arbitrary, also 0,
  so the event loop takes no step). With any other arguments the simulation starts: the
  first two steps of the loop start the generator and the observer, and the sample of
  time 0 is recorded, whatever \<open>demand_rate\<close>, \<open>repair_cycle_time\<close> and \<open>record_interval\<close>
  are. Then: a \<open>demand_rate\<close> of 0 raises \<open>ZeroDivisionError\<close> at the third step; a
  negative \<open>demand_rate\<close> with a positive first draw raises \<open>ValueError\<close> at the third
  step; a negative \<open>record_interval\<close>, with a positive \<open>demand_rate\<close> and first draw,
  raises \<open>ValueError\<close> at the third step; with a \<open>record_interval\<close> of 0 the call never
  returns a result, and with the other arguments in their ranges it never returns at
  all; a \<open>repair_cycle_time\<close> of 0 is accepted, the call with the other arguments in
  their ranges completes; a call with a negative \<open>repair_cycle_time\<close> that completes
  has served no vehicle, and one in which a vehicle is served raises \<open>ValueError\<close> when
  the repair process has started, at the eighth step in the call worked out here.
\<close>

theorem eager_checks:
  "(n0 < 1 \<longrightarrow> run_simulation draws fuel n0 rate cycle T interval = Some (Inl ValueError))
   \<and> (T \<le> 0 \<longrightarrow> run_simulation draws fuel n0 rate cycle T interval = Some (Inl ValueError))
   \<and> (1 \<le> n0 \<and> 0 < T \<longrightarrow>
        (\<exists>s. run_state (make_config draws rate cycle interval) n0 T 2 = Some s
              \<and> timeseries s = [first_snapshot n0])
        \<and> run_simulation draws fuel n0 0 cycle T interval
            = (if fuel < 3 then None else Some (Inl ZeroDivisionError))
        \<and> (rate < 0 \<and> 0 < draws 0 \<longrightarrow>
             run_simulation draws fuel n0 rate cycle T interval
               = (if fuel < 3 then None else Some (Inl ValueError)))
        \<and> (0 < rate \<and> 0 < draws 0 \<and> ri < 0 \<longrightarrow>
             run_simulation draws fuel n0 rate cycle T (Some ri)
               = (if fuel < 3 then None else Some (Inl ValueError)))
        \<and> (0 < rate \<and> 0 \<le> cycle \<and> (\<forall>k. 0 \<le> draws k) \<longrightarrow>
             run_simulation draws fuel n0 rate cycle T (Some 0) = None)
        \<and> (0 < rate \<and> 0 < ri \<and> (\<forall>k. 0 \<le> draws k)
             \<and> T * rate \<le> sum_list (map draws [0..<N]) \<longrightarrow>
             (\<exists>fuel' fm' ts'. run_simulation draws fuel' n0 rate 0 T (Some ri)
                = Some (Inr (fm', ts')))))
   \<and> run_simulation draws fuel n0 rate cycle T (Some 0) \<noteq> Some (Inr (fm, ts))
   \<and> (cycle < 0 \<and> run_simulation draws fuel n0 rate cycle T interval = Some (Inr (fm, ts))
        \<longrightarrow> fm_served fm = 0)
   \<and> run_simulation (\<lambda>k. 1 / 2) 7 1 1 (- 1) 2 None = None
   \<and> run_simulation (\<lambda>k. 1 / 2) 8 1 1 (- 1) 2 None = Some (Inl ValueError)"
proof (intro conjI impI)
  assume "n0 < 1"
  then show "run_simulation draws fuel n0 rate cycle T interval = Some (Inl ValueError)"
    by (simp add: run_simulation_def start_state_def container_init_def)
next
  assume T: "T \<le> 0"
  show "run_simulation draws fuel n0 rate cycle T interval = Some (Inl ValueError)"
  proof (cases "start_state n0")
    case (Inl e)
    then have "e = ValueError"
      by (auto simp: start_state_def container_init_def split: if_splits)
    then show ?thesis using Inl by (simp add: run_simulation_def)
  next
    case (Inr s0)
    have "now s0 = 0"
      using start_state_eq [OF Inr] by (simp add: env_process_def environment_def)
    then show ?thesis using Inr T by (simp add: run_simulation_def env_run_def)
  qed
next
  assume "1 \<le> n0 \<and> 0 < T"
  then show "\<exists>s. run_state (make_config draws rate cycle interval) n0 T 2 = Some s
      \<and> timeseries s = [first_snapshot n0]"
    by (simp add: first_sample)
next
  assume a: "1 \<le> n0 \<and> 0 < T"
  let ?cfg = "make_config draws 0 cycle interval"
  have "demand_rate ?cfg = 0 \<or> unit_draws ?cfg 0 / demand_rate ?cfg < 0"
    by (simp add: make_config_def)
  then obtain s x q where "run_state ?cfg n0 T 2 = Some s" and "queue s = x # q"
    and "ev_of x = Process VehicleGenerator (Some ZeroDivisionError)"
    using generator_failure [of n0 T ?cfg] a by (auto simp: make_config_def)
  then show "run_simulation draws fuel n0 0 cycle T interval
      = (if fuel < 3 then None else Some (Inl ZeroDivisionError))"
    by (rule raise_at_third) simp
next
  assume a: "1 \<le> n0 \<and> 0 < T" and b: "rate < 0 \<and> 0 < draws 0"
  let ?cfg = "make_config draws rate cycle interval"
  have "unit_draws ?cfg 0 / demand_rate ?cfg < 0" and "demand_rate ?cfg \<noteq> 0"
    using b by (simp_all add: make_config_def divide_pos_neg)
  then obtain s x q where "run_state ?cfg n0 T 2 = Some s" and "queue s = x # q"
    and "ev_of x = Process VehicleGenerator (Some ValueError)"
    using generator_failure [of n0 T ?cfg] a by auto
  then show "run_simulation draws fuel n0 rate cycle T interval
      = (if fuel < 3 then None else Some (Inl ValueError))"
    by (rule raise_at_third) simp
next
  assume a: "1 \<le> n0 \<and> 0 < T" and b: "0 < rate \<and> 0 < draws 0 \<and> ri < 0"
  let ?cfg = "make_config draws rate cycle (Some ri)"
  have "0 < unit_draws ?cfg 0 / demand_rate ?cfg" and "demand_rate ?cfg \<noteq> 0"
    and "record_interval ?cfg < 0"
    using b by (simp_all add: make_config_def)
  then obtain s x q where "run_state ?cfg n0 T 2 = Some s" and "queue s = x # q"
    and "ev_of x = Process MetricsObserver (Some ValueError)"
    using observer_failure [of n0 T ?cfg] a by auto
  then show "run_simulation draws fuel n0 rate cycle T (Some ri)
      = (if fuel < 3 then None else Some (Inl ValueError))"
    by (rule raise_at_third) simp
next
  assume "1 \<le> n0 \<and> 0 < T" and "0 < rate \<and> 0 \<le> cycle \<and> (\<forall>k. 0 \<le> draws k)"
  then show "run_simulation draws fuel n0 rate cycle T (Some 0) = None"
    by (simp add: zero_interval_never_returns)
next
  assume a: "1 \<le> n0 \<and> 0 < T"
    and b: "0 < rate \<and> 0 < ri \<and> (\<forall>k. 0 \<le> draws k) \<and> T * rate \<le> sum_list (map draws [0..<N])"
  let ?cfg = "make_config draws rate 0 (Some ri)"
  have "in_range ?cfg" and "0 < record_interval ?cfg"
    using b by (simp_all add: in_range_def make_config_def)
  moreover have "T \<le> arrival ?cfg N"
    using b by (simp add: arrival_def make_config_def pos_le_divide_eq)
  ultimately show "\<exists>fuel' fm' ts'. run_simulation draws fuel' n0 rate 0 T (Some ri)
      = Some (Inr (fm', ts'))"
    using a run_completes [of n0 T draws rate 0 "Some ri" N] by simp
next
  show "run_simulation draws fuel n0 rate cycle T (Some 0) \<noteq> Some (Inr (fm, ts))"
    by (rule zero_interval_incomplete)
next
  assume "cycle < 0 \<and> run_simulation draws fuel n0 rate cycle T interval = Some (Inr (fm, ts))"
  then show "fm_served fm = 0" using negative_cycle_serves_none by blast
next
  show "run_simulation (\<lambda>k. 1 / 2) 7 1 1 (- 1) 2 None = None"
    by (rule negative_cycle_raises(1))
next
  show "run_simulation (\<lambda>k. 1 / 2) 8 1 1 (- 1) 2 None = Some (Inl ValueError)"
    by (rule negative_cycle_raises(2))
qed

theorem eager_checks_witness:
  "run_simulation (\<lambda>k. 1) 0 (- 2) 1 5 10 None = Some (Inl ValueError)
   \<and> run_simulation (\<lambda>k. 1) 0 3 1 5 0 None = Some (Inl ValueError)
   \<and> run_simulation (\<lambda>k. 1) 2 3 0 5 10 None = None
   \<and> run_simulation (\<lambda>k. 1) 3 3 0 5 10 None = Some (Inl ZeroDivisionError)
   \<and> run_simulation (\<lambda>k. 1) 3 3 (- 1) 5 10 None = Some (Inl ValueError)
   \<and> run_simulation (\<lambda>k. 1) 3 3 1 5 10 (Some (- 1)) = Some (Inl ValueError)
   \<and> run_simulation (\<lambda>k. 1) 1000 3 1 5 10 (Some 0) = None
   \<and> (\<exists>s. run_state (make_config (\<lambda>k. 1) 0 5 None) 3 10 2 = Some s
          \<and> timeseries s = [first_snapshot 3])"
proof -
  have "run_simulation (\<lambda>k. 1) 0 (- 2) 1 5 10 None = Some (Inl ValueError)"
    using eager_checks [where ?n0.0 = "- 2" and draws = "\<lambda>k. 1" and fuel = 0 and rate = 1
        and cycle = 5 and T = 10 and interval = None] by simp
  moreover have "run_simulation (\<lambda>k. 1) 0 3 1 5 0 None = Some (Inl ValueError)"
    using eager_checks [where ?n0.0 = 3 and draws = "\<lambda>k. 1" and fuel = 0 and rate = 1
        and cycle = 5 and T = 0 and interval = None] by simp
  moreover have "run_simulation (\<lambda>k. 1) 2 3 0 5 10 None = None"
    using eager_checks [where ?n0.0 = 3 and draws = "\<lambda>k. 1" and fuel = 2 and rate = 0
        and cycle = 5 and T = 10 and interval = None] by simp
  moreover have "run_simulation (\<lambda>k. 1) 3 3 0 5 10 None = Some (Inl ZeroDivisionError)"
    using eager_checks [where ?n0.0 = 3 and draws = "\<lambda>k. 1" and fuel = 3 and rate = 0
        and cycle = 5 and T = 10 and interval = None] by simp
  moreover have "run_simulation (\<lambda>k. 1) 3 3 (- 1) 5 10 None = Some (Inl ValueError)"
    using eager_checks [where ?n0.0 = 3 and draws = "\<lambda>k. 1" and fuel = 3 and rate = "- 1"
        and cycle = 5 and T = 10 and interval = None] by simp
  moreover have "run_simulation (\<lambda>k. 1) 3 3 1 5 10 (Some (- 1)) = Some (Inl ValueError)"
    using eager_checks [where ?n0.0 = 3 and draws = "\<lambda>k. 1" and fuel = 3 and rate = 1
        and cycle = 5 and T = 10 and ri = "- 1"] by simp
  moreover have "run_simulation (\<lambda>k. 1) 1000 3 1 5 10 (Some 0) = None"
    using eager_checks [where ?n0.0 = 3 and draws = "\<lambda>k. 1" and fuel = 1000 and rate = 1
        and cycle = 5 and T = 10] by simp
  moreover have "\<exists>s. run_state (make_config (\<lambda>k. 1) 0 5 None) 3 10 2 = Some s
      \<and> timeseries s = [first_snapshot 3]"
    using eager_checks [where ?n0.0 = 3 and draws = "\<lambda>k. 1" and rate = 0
        and cycle = 5 and T = 10 and interval = None] by simp
  ultimately show ?thesis by simp
qed

subsection \<open>Releases and the capacity\<close>

text \<open>
  C6, the claim as stated fails: the program has no \<open>PoolOverflowError\<close>. A
  \<open>container.put(1)\<close> on a full container raises nothing and leaves the level as it is;
  the put stays in the put queue and the repair process waits for it, with no event
  scheduled.
\<close>

theorem full_pool_counterexample:
  "repair_return (environment\<lparr>level := 1, capacity := 1\<rparr>)
     = (Yielded, environment\<lparr>level := 1, capacity := 1, put_queue := [1]\<rparr>)"
  by (simp add: repair_return_def container_put_def environment_def trigger_put.simps)

text \<open>
  C6, amended: in every state of a run the level lies between 0 and the capacity, which
  is \<open>initial_supply\<close>, and no put is waiting; whenever the timeout of a repair process
  is the next event, the level is below the capacity, so that every release is granted
  at once and none can push the level above the capacity.
\<close>

theorem release_has_room:
  assumes "run_state cfg n0 T n = Some s"
  shows "0 \<le> level s \<and> level s \<le> n0 \<and> capacity s = n0 \<and> put_queue s = []
         \<and> (\<forall>x q. queue s = x # q \<and> ev_of x = Timeout RepairProcess \<longrightarrow> level s < n0)"
proof -
  have "sound T n0 s" using assms by (rule run_state_sound)
  then have a: "accounting s" and c: "capacity s = n0"
    by (simp_all add: sound_def)
  have u: "units s = n0" using a c by (simp add: accounting_def)
  have nonneg: "0 \<le> pending ContainerGet s" "0 \<le> pending (Initialize RepairProcess) s"
    "0 \<le> pending (Timeout RepairProcess) s"
    "0 \<le> pending (Process RepairProcess (Some ValueError)) s"
    by (rule pending_nonneg)+
  have le: "level s \<le> n0"
    using u nonneg unfolding units_def by linarith
  have room: "level s < n0" if "queue s = x # q" and "ev_of x = Timeout RepairProcess" for x q
  proof -
    have "1 \<le> pending (Timeout RepairProcess) s"
      using that by (simp add: pending_def)
    then show ?thesis using u nonneg unfolding units_def by linarith
  qed
  show ?thesis using a c le room by (auto simp: accounting_def)
qed

theorem release_has_room_witness:
  "\<exists>s x q. run_state (make_config (\<lambda>k. 1 / 2) 1 1 (Some 1)) 1 2 10 = Some s
     \<and> queue s = x # q \<and> ev_of x = Timeout RepairProcess \<and> level s < 1 \<and> put_queue s = []"
proof -
  have "case run_state (make_config (\<lambda>k. 1 / 2) 1 1 (Some 1)) 1 2 10 of
          None \<Rightarrow> False
        | Some s \<Rightarrow> (case queue s of [] \<Rightarrow> False | x # q \<Rightarrow> ev_of x = Timeout RepairProcess)"
    by code_simp
  then obtain s x q where rs: "run_state (make_config (\<lambda>k. 1 / 2) 1 1 (Some 1)) 1 2 10 = Some s"
    and q: "queue s = x # q" and x: "ev_of x = Timeout RepairProcess"
    by (auto split: option.splits list.splits)
  from release_has_room [OF rs] q x have "level s < 1 \<and> put_queue s = []" by blast
  then show ?thesis using rs q x by blast
qed

subsection \<open>Zero supply\<close>

text \<open>
  C7, the claim as stated fails: with \<open>initial_supply = 0\<close> no run takes place, the
  constructor of the container refuses the capacity 0.
\<close>

theorem zero_supply_counterexample:
  "run_simulation (\<lambda>k. 1) 100 0 1 5 10 (Some 1) = Some (Inl ValueError)"
  by (simp add: run_simulation_def start_state_def container_init_def)

text \<open>
  C7, amended: a call of \<open>run_simulation\<close> with \<open>initial_supply = 0\<close> raises
  \<open>ValueError\<close> for every other argument and every state of the random generator, and
  does so before the event loop takes a step (the fuel is arbitrary, also 0), so no
  sample is recorded.
\<close>

theorem zero_supply_rejected:
  "run_simulation draws fuel 0 rate cycle sim_time interval = Some (Inl ValueError)"
  by (simp add: run_simulation_def start_state_def container_init_def)

subsection \<open>Monotone counters\<close>

text \<open>
  C8: in the \<open>timeseries\<close> of every completed call the times, \<open>total_arrivals\<close> and
  \<open>served\<close> are non-decreasing along the list, and \<open>served \<le> total_arrivals\<close> holds in
  every snapshot.
\<close>

theorem counters_monotone:
  assumes "run_simulation draws fuel n0 rate cycle T interval = Some (Inr (fm, ts))"
  shows "sorted (map time ts) \<and> sorted (map snap_total_arrivals ts)
         \<and> sorted (map snap_served ts)
         \<and> (\<forall>snap\<in>set ts. snap_served snap \<le> snap_total_arrivals snap)"
proof -
  obtain s' where "ts = timeseries s'" and "monotone_series s'"
    using assms by (rule run_simulation_final)
  then show ?thesis by (simp add: monotone_series_def)
qed

theorem counters_monotone_witness:
  "\<exists>fm ts. run_simulation (\<lambda>k. 1 / 2) 40 1 1 1 2 (Some 1) = Some (Inr (fm, ts))
     \<and> sorted (map snap_total_arrivals ts) \<and> sorted (map snap_served ts)"
  using counters_monotone [OF example_run] example_run by blast

subsection \<open>The cadence of the samples\<close>



subsection \<open>The default of record_interval\<close>

text \<open>
  C10: \<open>record_interval\<close> may be omitted, and the call then is the call with
  \<open>record_interval = 1.0\<close>.
\<close>

theorem record_interval_default:
  "run_simulation draws fuel initial_supply rate cycle sim_time None
     = run_simulation draws fuel initial_supply rate cycle sim_time (Some 1)"
proof -
  have same: "make_config draws rate cycle None = make_config draws rate cycle (Some 1)"
    by (simp add: make_config_def)
  show ?thesis
    unfolding run_simulation_def same by (rule refl)
qed

end
